theory Spec2Isabelle
  imports Main "HOL-Library.Word"
begin

section \<open>The diff line locator of the GitLab review sync (api.mjs)\<close>

text \<open>
  The development embeds \<^verbatim>\<open>GitLabReviewService.findLineInDiff\<close> and
  \<^verbatim>\<open>GitLabReviewService.postDiscussion\<close> of
  \<^verbatim>\<open>src/skills/gitlab-review/api.mjs\<close>.

  A JavaScript string is a sequence of UTF-16 code units, so a string is a list of
  16-bit words. JavaScript numbers are modelled as mathematical integers: the line
  counters are exact as long as they stay below \<open>2 ^ 53\<close>.
\<close>

subsection \<open>Strings\<close>

type_synonym cu = "16 word"
type_synonym jstring = "cu list"

definition js :: "string \<Rightarrow> jstring" where
  "js s = map of_char s"

definition LF :: cu where "LF = 0x0A"
definition SPACE :: cu where "SPACE = 0x20"
definition PLUS :: cu where "PLUS = 0x2B"
definition COMMA :: cu where "COMMA = 0x2C"
definition MINUS :: cu where "MINUS = 0x2D"
definition AT :: cu where "AT = 0x40"

text \<open>The line terminators of ECMAScript, after which \<^verbatim>\<open>^\<close> matches in multiline mode.\<close>

definition isLineTerminator :: "cu \<Rightarrow> bool" where
  "isLineTerminator c \<longleftrightarrow> c = 0x0A \<or> c = 0x0D \<or> c = 0x2028 \<or> c = 0x2029"

text \<open>The class \<^verbatim>\<open>\d\<close> of a regular expression without the unicode flag: \<^verbatim>\<open>[0-9]\<close>.\<close>

definition isDigit :: "cu \<Rightarrow> bool" where
  "isDigit c \<longleftrightarrow> 0x30 \<le> c \<and> c \<le> 0x39"

text \<open>\<^verbatim>\<open>line.startsWith(c)\<close> for a one-character string \<open>c\<close>.\<close>

fun startsWith :: "jstring \<Rightarrow> cu \<Rightarrow> bool" where
  "startsWith [] c = False"
| "startsWith (x # xs) c = (x = c)"

text \<open>
  \<^verbatim>\<open>parseInt(s)\<close> on a string that the regular expression has already restricted to
  one or more decimal digits: the decimal value (a leading zero does not select octal).
\<close>

definition digitValue :: "cu \<Rightarrow> int" where
  "digitValue c = int (unat c) - 48"

definition parseInt :: "jstring \<Rightarrow> int" where
  "parseInt s = foldl (\<lambda>n c. 10 * n + digitValue c) 0 s"

subsection \<open>\<^verbatim>\<open>diffText.split(/^@@/m)\<close>\<close>

text \<open>
  The split of ECMAScript walks the string from left to right. At a position where the
  expression matches (two \<^verbatim>\<open>@\<close> at the start of the input or right after a line
  terminator) the segment collected so far is emitted and the walk resumes after the
  match; anywhere else it advances by one code unit. \<open>bol\<close> says whether the current
  position is at the beginning of a line, \<open>acc\<close> is the segment collected so far.
\<close>

fun splitHeader :: "bool \<Rightarrow> jstring \<Rightarrow> jstring \<Rightarrow> jstring list" where
  "splitHeader bol acc [] = [acc]"
| "splitHeader bol acc [c] = [acc @ [c]]"
| "splitHeader bol acc (c # d # r) =
     (if bol \<and> c = AT \<and> d = AT then acc # splitHeader False [] r
      else splitHeader (isLineTerminator c) (acc @ [c]) (d # r))"

definition splitHunks :: "jstring \<Rightarrow> jstring list" where
  "splitHunks s = splitHeader True [] s"

subsection \<open>\<^verbatim>\<open>hunk.split('\n')\<close>\<close>

fun splitOn :: "cu \<Rightarrow> jstring \<Rightarrow> jstring \<Rightarrow> jstring list" where
  "splitOn sep acc [] = [acc]"
| "splitOn sep acc (c # r) =
     (if c = sep then acc # splitOn sep [] r else splitOn sep (acc @ [c]) r)"

definition splitLines :: "jstring \<Rightarrow> jstring list" where
  "splitLines s = splitOn LF [] s"

subsection \<open>\<^verbatim>\<open>hunk.match(/ -(\d+),?\d* \+(\d+),?\d* @@/)\<close>\<close>

text \<open>
  The expression is a sequence of terms, each a one-character atom under a greedy
  quantifier. \<open>backtrack\<close> is the backtracking matcher of ECMAScript on such sequences: a
  greedy quantifier first takes a character and recurses, and gives the character back
  when the rest of the expression fails. It returns what each term has matched, so the
  capture groups are read off by position.
\<close>

datatype atom = Lit cu | Digit

datatype quant = Once | Opt | Star | Plus

fun atomOk :: "atom \<Rightarrow> cu \<Rightarrow> bool" where
  "atomOk (Lit x) c = (c = x)"
| "atomOk Digit c = isDigit c"

fun consFirst :: "cu \<Rightarrow> jstring list \<Rightarrow> jstring list" where
  "consFirst c [] = [[c]]"
| "consFirst c (m # ms) = (c # m) # ms"

fun backtrack :: "(atom \<times> quant) list \<Rightarrow> jstring \<Rightarrow> jstring list option" where
  "backtrack [] s = Some []"
| "backtrack ((a, Once) # p) [] = None"
| "backtrack ((a, Once) # p) (c # r) =
     (if atomOk a c
      then (case backtrack p r of None \<Rightarrow> None | Some ms \<Rightarrow> Some ([c] # ms))
      else None)"
| "backtrack ((a, Opt) # p) [] =
     (case backtrack p [] of None \<Rightarrow> None | Some ms \<Rightarrow> Some ([] # ms))"
| "backtrack ((a, Opt) # p) (c # r) =
     (case (if atomOk a c then backtrack p r else None) of
        Some ms \<Rightarrow> Some ([c] # ms)
      | None \<Rightarrow> (case backtrack p (c # r) of None \<Rightarrow> None | Some ms \<Rightarrow> Some ([] # ms)))"
| "backtrack ((a, Star) # p) [] =
     (case backtrack p [] of None \<Rightarrow> None | Some ms \<Rightarrow> Some ([] # ms))"
| "backtrack ((a, Star) # p) (c # r) =
     (case (if atomOk a c then backtrack ((a, Star) # p) r else None) of
        Some ms \<Rightarrow> Some (consFirst c ms)
      | None \<Rightarrow> (case backtrack p (c # r) of None \<Rightarrow> None | Some ms \<Rightarrow> Some ([] # ms)))"
| "backtrack ((a, Plus) # p) [] = None"
| "backtrack ((a, Plus) # p) (c # r) =
     (if atomOk a c
      then (case backtrack ((a, Star) # p) r of None \<Rightarrow> None | Some ms \<Rightarrow> Some (consFirst c ms))
      else None)"

text \<open>
  A match without the global flag tries the start positions from left to right and
  returns the first position where the expression matches.
\<close>

fun search :: "(atom \<times> quant) list \<Rightarrow> jstring \<Rightarrow> jstring list option" where
  "search p [] = backtrack p []"
| "search p (c # r) =
     (case backtrack p (c # r) of Some ms \<Rightarrow> Some ms | None \<Rightarrow> search p r)"

definition headerRe :: "(atom \<times> quant) list" where
  "headerRe =
     [(Lit SPACE, Once), (Lit MINUS, Once), (Digit, Plus), (Lit COMMA, Opt), (Digit, Star),
      (Lit SPACE, Once), (Lit PLUS, Once), (Digit, Plus), (Lit COMMA, Opt), (Digit, Star),
      (Lit SPACE, Once), (Lit AT, Once), (Lit AT, Once)]"

text \<open>\<open>headerMatch\<close> returns the two capture groups: \<^verbatim>\<open>headerMatch[1]\<close> and \<^verbatim>\<open>headerMatch[2]\<close>.\<close>

definition headerMatch :: "jstring \<Rightarrow> (jstring \<times> jstring) option" where
  "headerMatch hunk =
     (case search headerRe hunk of None \<Rightarrow> None | Some ms \<Rightarrow> Some (ms ! 2, ms ! 7))"

text \<open>
  What the optional count \<^verbatim>\<open>,?\d*\<close> matches at the start of a string that does not begin
  with a digit: the comma, if there is one, and the digits after it.
\<close>

definition countGroups :: "jstring \<Rightarrow> jstring list" where
  "countGroups t =
     [if startsWith t COMMA then [COMMA] else [],
      if startsWith t COMMA then takeWhile isDigit (tl t) else []]"

subsection \<open>The walk over the lines of a hunk\<close>

record position =
  oldLine :: "int option"
  newLine :: int

text \<open>
  One round of the inner loop, up to the test for the early exit: either the function
  returns a position, or the counters are updated.
\<close>

definition lineStep :: "jstring \<Rightarrow> int \<Rightarrow> int \<Rightarrow> int \<Rightarrow> position + int \<times> int" where
  "lineStep line old new target =
     (if startsWith line MINUS then Inr (old + 1, new)
      else if startsWith line PLUS then
        (if new = target then Inl \<lparr>oldLine = None, newLine = new\<rparr> else Inr (old, new + 1))
      else
        (if new = target then Inl \<lparr>oldLine = Some old, newLine = new\<rparr>
         else Inr (old + 1, new + 1)))"

text \<open>
  The inner loop ends in one of three ways: the function returns, the loop is left by
  \<^verbatim>\<open>break\<close>, or the lines are exhausted.
\<close>

datatype scan = Found position | Broke | Exhausted

fun walk :: "jstring list \<Rightarrow> int \<Rightarrow> int \<Rightarrow> int \<Rightarrow> scan" where
  "walk [] old new target = Exhausted"
| "walk (line # rest) old new target =
     (case lineStep line old new target of
        Inl pos \<Rightarrow> Found pos
      | Inr (old', new') \<Rightarrow> if new' > target then Broke else walk rest old' new' target)"

subsection \<open>\<^verbatim>\<open>findLineInDiff\<close>\<close>

text \<open>The body of the outer loop for one hunk; \<open>None\<close> is the \<^verbatim>\<open>continue\<close> of a failed match.\<close>

definition scanHunk :: "jstring \<Rightarrow> int \<Rightarrow> scan option" where
  "scanHunk hunk target =
     (case headerMatch hunk of
        None \<Rightarrow> None
      | Some (g1, g2) \<Rightarrow> Some (walk (drop 1 (splitLines hunk)) (parseInt g1) (parseInt g2) target))"

fun scanHunks :: "jstring list \<Rightarrow> int \<Rightarrow> position option" where
  "scanHunks [] target = None"
| "scanHunks (hunk # hunks) target =
     (case scanHunk hunk target of
        Some (Found pos) \<Rightarrow> Some pos
      | _ \<Rightarrow> scanHunks hunks target)"

definition findLineInDiff :: "jstring \<Rightarrow> int \<Rightarrow> position option" where
  "findLineInDiff diffText targetNewLine =
     (if diffText = [] then None
      else scanHunks (drop 1 (splitHunks diffText)) targetNewLine)"

subsection \<open>Counting the lines of a hunk\<close>

text \<open>
  The number of lines of a prefix that advance the new counter (every line but a
  removed one) and the number that advance the old counter (every line but an added one).
\<close>

definition newAdvance :: "jstring list \<Rightarrow> int" where
  "newAdvance pre = int (length (filter (\<lambda>l. \<not> startsWith l MINUS) pre))"

definition oldAdvance :: "jstring list \<Rightarrow> int" where
  "oldAdvance pre = int (length (filter (\<lambda>l. \<not> startsWith l PLUS) pre))"

text \<open>
  The target is shown by a hunk when some line of its body that is not a removed line
  carries the target as its new line number.
\<close>

fun shownFrom :: "jstring list \<Rightarrow> int \<Rightarrow> int \<Rightarrow> bool" where
  "shownFrom [] new target = False"
| "shownFrom (l # ls) new target =
     (if startsWith l MINUS then shownFrom ls new target
      else new = target \<or> shownFrom ls (new + 1) target)"

definition shownIn :: "jstring \<Rightarrow> int \<Rightarrow> bool" where
  "shownIn hunk target =
     (case headerMatch hunk of
        None \<Rightarrow> False
      | Some (g1, g2) \<Rightarrow> shownFrom (drop 1 (splitLines hunk)) (parseInt g2) target)"

subsection \<open>The comment dispatch of \<^verbatim>\<open>postDiscussion\<close>\<close>

text \<open>
  The fields \<^verbatim>\<open>file\<close> and \<^verbatim>\<open>line\<close> of a review comment are \<open>comment_file\<close> and
  \<open>comment_line\<close> here.

  The comments are a list of review comments, as the input format of the script requires.
  The data of a successful fetch need not be complete: the merge request may come without \<^verbatim>\<open>diff_refs\<close> (the service leaves it empty
  on a merge request that has no diff yet) or without \<^verbatim>\<open>web_url\<close>, and the data of the
  diffs may be something else than an array. Reading a property of a missing value, or
  calling \<^verbatim>\<open>find\<close> on something that is not an array, throws a \<^verbatim>\<open>TypeError\<close> inside the
  \<^verbatim>\<open>try\<close> block of \<^verbatim>\<open>postDiscussion\<close>.
\<close>

record reviewComment =
  comment_file :: jstring
  comment_line :: int
  description :: jstring
  suggestion :: "jstring option"

text \<open>An entry of the changed files; \<open>diff\<close> is \<open>None\<close> when the property is missing.\<close>

record change =
  new_path :: jstring
  old_path :: jstring
  diff :: "jstring option"

record diffRefs =
  base_sha :: jstring
  head_sha :: jstring
  start_sha :: jstring

text \<open>
  \<^verbatim>\<open>mrResponse.data\<close>; a field is \<open>None\<close> when it is \<^verbatim>\<open>null\<close> or missing. Data that are
  missing as a whole throw before the loop as data without a \<^verbatim>\<open>web_url\<close> do, and are
  modelled by them.
\<close>

record mergeRequest =
  diff_refs :: "diffRefs option"
  web_url :: "jstring option"

text \<open>\<^verbatim>\<open>diffResponse.data\<close>: the array of the changed files, or a value that is no array.\<close>

datatype changesData = Changes "change list" | NotAnArray

datatype exception = TypeError

record positionData =
  position_base_sha :: jstring
  position_head_sha :: jstring
  position_start_sha :: jstring
  position_new_path :: jstring
  position_old_path :: jstring
  position_type :: jstring
  new_line :: int
  old_line :: "int option"

text \<open>
  The text of a message is not rendered: a body records which template produced it and the
  values the template interpolates. \<open>FileLineUrl web sha file line\<close> is the deep link
  \<^verbatim>\<open>${mrWebUrl}/-/blob/${diffRefs.head_sha}/${comment.file}#L${comment.line}\<close>,
  \<open>Message c url isFallback\<close> is \<^verbatim>\<open>formatMessage(c, url, isFallback)\<close>, and
  \<open>Summary total success fallback\<close> is the text built by \<^verbatim>\<open>postSummary\<close>.
\<close>

datatype url = FileLineUrl jstring jstring jstring int

datatype body = Message reviewComment url bool | Summary nat nat nat

definition formatMessage :: "reviewComment \<Rightarrow> url \<Rightarrow> bool \<Rightarrow> body" where
  "formatMessage c fileLineUrl isFallback = Message c fileLineUrl isFallback"

text \<open>\<^verbatim>\<open>s.split(sep)[0]\<close> for a separator that is not empty.\<close>

fun isPrefix :: "jstring \<Rightarrow> jstring \<Rightarrow> bool" where
  "isPrefix [] s = True"
| "isPrefix (x # xs) [] = False"
| "isPrefix (x # xs) (c # r) = (x = c \<and> isPrefix xs r)"

fun beforeSep :: "jstring \<Rightarrow> jstring \<Rightarrow> jstring" where
  "beforeSep sep [] = []"
| "beforeSep sep (c # r) = (if isPrefix sep (c # r) then [] else c # beforeSep sep r)"

text \<open>
  The two POST requests of the service: a discussion with a position, and a note. The
  remote service is a parameter. Its state is \<open>'w\<close>; a request is answered by success
  (\<open>True\<close>, or the fetched data) or by a failure, which \<^verbatim>\<open>axios\<close> throws.
\<close>

datatype request = Discussion body positionData | Note body

record 'w service =
  getMr :: "'w \<Rightarrow> mergeRequest option \<times> 'w"
  getDiffs :: "'w \<Rightarrow> changesData option \<times> 'w"
  axiosPost :: "request \<Rightarrow> 'w \<Rightarrow> bool \<times> 'w"

datatype logEntry =
  LogPositional reviewComment
| WarnPositionalFailed reviewComment
| LogFallback reviewComment
| ErrorFallbackFailed reviewComment
| WarnSummaryFailed
| Fatal

text \<open>
  The state of a run: the remote service, the requests posted so far with their outcome,
  the console, and the two counters of \<^verbatim>\<open>postDiscussion\<close>.
\<close>

record 'w run =
  world :: 'w
  sent :: "(request \<times> bool) list"
  console :: "logEntry list"
  successCount :: nat
  fallbackCount :: nat

definition doPost :: "'w service \<Rightarrow> request \<Rightarrow> 'w run \<Rightarrow> bool \<times> 'w run" where
  "doPost svc req st =
     (case axiosPost svc req (world st) of
        (ok, w) \<Rightarrow> (ok, st\<lparr>world := w, sent := sent st @ [(req, ok)]\<rparr>))"

definition emit :: "logEntry \<Rightarrow> 'w run \<Rightarrow> 'w run" where
  "emit e st = st\<lparr>console := console st @ [e]\<rparr>"

definition postFallbackNote :: "'w service \<Rightarrow> reviewComment \<Rightarrow> body \<Rightarrow> 'w run \<Rightarrow> bool \<times> 'w run" where
  "postFallbackNote svc comment b st =
     (case doPost svc (Note b) st of
        (True, st') \<Rightarrow> (True, emit (LogFallback comment) st')
      | (False, st') \<Rightarrow> (False, emit (ErrorFallbackFailed comment) st'))"

definition postSummary :: "'w service \<Rightarrow> nat \<Rightarrow> nat \<Rightarrow> nat \<Rightarrow> 'w run \<Rightarrow> 'w run" where
  "postSummary svc success fallback totalCount st =
     (case doPost svc (Note (Summary totalCount success fallback)) st of
        (True, st') \<Rightarrow> st'
      | (False, st') \<Rightarrow> emit WarnSummaryFailed st')"

text \<open>\<^verbatim>\<open>changes.find(c => c.new_path === comment.file || c.old_path === comment.file)\<close>\<close>

definition findChange :: "change list \<Rightarrow> jstring \<Rightarrow> change option" where
  "findChange changes f = find (\<lambda>c. new_path c = f \<or> old_path c = f) changes"

definition positionFor :: "diffRefs \<Rightarrow> change list \<Rightarrow> reviewComment \<Rightarrow> positionData option" where
  "positionFor refs changes comment =
     (case findChange changes (comment_file comment) of
        None \<Rightarrow> None
      | Some fileChange \<Rightarrow>
          (case diff fileChange of
             None \<Rightarrow> None
           | Some d \<Rightarrow>
               (if d = [] then None
                else (case findLineInDiff d (comment_line comment) of
                        None \<Rightarrow> None
                      | Some lineInfo \<Rightarrow>
                          Some \<lparr>position_base_sha = base_sha refs,
                                position_head_sha = head_sha refs,
                                position_start_sha = start_sha refs,
                                position_new_path = new_path fileChange,
                                position_old_path = old_path fileChange,
                                position_type = js ''text'',
                                new_line = newLine lineInfo,
                                old_line = oldLine lineInfo\<rparr>))))"

text \<open>\<^verbatim>\<open>mrResponse.data.web_url.split('/-/merge_requests')[0]\<close>, for a \<^verbatim>\<open>web_url\<close> that is there.\<close>

definition mrWebUrl :: "jstring \<Rightarrow> jstring" where
  "mrWebUrl web = beforeSep (js ''/-/merge_requests'') web"

definition fileLineUrl :: "jstring \<Rightarrow> diffRefs \<Rightarrow> reviewComment \<Rightarrow> url" where
  "fileLineUrl web refs comment =
     FileLineUrl web (head_sha refs) (comment_file comment) (comment_line comment)"

text \<open>The fallback path at the end of the loop body.\<close>

definition fallbackPath :: "'w service \<Rightarrow> url \<Rightarrow> reviewComment \<Rightarrow> 'w run \<Rightarrow> 'w run" where
  "fallbackPath svc link comment st =
     (case postFallbackNote svc comment (formatMessage comment link True) st of
        (True, st') \<Rightarrow> st'\<lparr>fallbackCount := fallbackCount st' + 1\<rparr>
      | (False, st') \<Rightarrow> st')"

text \<open>
  The body of the loop once \<^verbatim>\<open>diffRefs.head_sha\<close> has been read and \<^verbatim>\<open>changes.find\<close> has
  been called: from here on nothing throws out of the body.
\<close>

definition dispatchComment ::
    "'w service \<Rightarrow> jstring \<Rightarrow> diffRefs \<Rightarrow> change list \<Rightarrow> 'w run \<Rightarrow> reviewComment \<Rightarrow> 'w run" where
  "dispatchComment svc web refs changes st comment =
     (case positionFor refs changes comment of
        Some positionData \<Rightarrow>
          (case doPost svc (Discussion (formatMessage comment (fileLineUrl web refs comment) False) positionData) st of
             (True, st') \<Rightarrow>
               (emit (LogPositional comment) st')\<lparr>successCount := successCount st' + 1\<rparr>
           | (False, st') \<Rightarrow>
               fallbackPath svc (fileLineUrl web refs comment) comment
                 (emit (WarnPositionalFailed comment) st'))
      | None \<Rightarrow> fallbackPath svc (fileLineUrl web refs comment) comment st)"

text \<open>
  The body of the loop over the comments. Its first statement reads \<^verbatim>\<open>diffRefs.head_sha\<close>
  and its second calls \<^verbatim>\<open>changes.find\<close>; either throws a \<^verbatim>\<open>TypeError\<close> before anything
  is posted or logged for the comment.
\<close>

definition syncComment ::
    "'w service \<Rightarrow> jstring \<Rightarrow> diffRefs option \<Rightarrow> changesData \<Rightarrow> 'w run \<Rightarrow> reviewComment \<Rightarrow>
     exception + 'w run" where
  "syncComment svc web diffRefs changes st comment =
     (case diffRefs of
        None \<Rightarrow> Inl TypeError
      | Some refs \<Rightarrow>
          (case changes of
             NotAnArray \<Rightarrow> Inl TypeError
           | Changes cs \<Rightarrow> Inr (dispatchComment svc web refs cs st comment)))"

text \<open>
  The loop over the comments: it ends normally with the state after the last comment, or
  it is left by the exception of a body, with the state reached before that comment.
\<close>

fun forComments ::
    "'w service \<Rightarrow> jstring \<Rightarrow> diffRefs option \<Rightarrow> changesData \<Rightarrow> 'w run \<Rightarrow> reviewComment list \<Rightarrow>
     (exception \<times> 'w run) + 'w run" where
  "forComments svc web diffRefs changes st [] = Inr st"
| "forComments svc web diffRefs changes st (comment # rest) =
     (case syncComment svc web diffRefs changes st comment of
        Inl e \<Rightarrow> Inl (e, st)
      | Inr st' \<Rightarrow> forComments svc web diffRefs changes st' rest)"

definition startRun :: "'w \<Rightarrow> 'w run" where
  "startRun w = \<lparr>world = w, sent = [], console = [], successCount = 0, fallbackCount = 0\<rparr>"

text \<open>
  \<^verbatim>\<open>postDiscussion\<close>: both fetches are issued. When one of them fails, or when a
  \<^verbatim>\<open>TypeError\<close> is thrown (by \<^verbatim>\<open>web_url.split\<close> before the loop, or by the body of the
  loop), the error is caught by the outer handler and logged, and no summary is posted.
\<close>

definition postDiscussion :: "'w service \<Rightarrow> reviewComment list \<Rightarrow> 'w \<Rightarrow> 'w run" where
  "postDiscussion svc comments w =
     (case getMr svc w of
        (mrResponse, w1) \<Rightarrow>
          (case getDiffs svc w1 of
             (diffResponse, w2) \<Rightarrow>
               (case (mrResponse, diffResponse) of
                  (Some mr, Some changes) \<Rightarrow>
                    (case web_url mr of
                       None \<Rightarrow> emit Fatal (startRun w2)
                     | Some web \<Rightarrow>
                         (case forComments svc (mrWebUrl web) (diff_refs mr) changes
                                 (startRun w2) comments of
                            Inl (e, st) \<Rightarrow> emit Fatal st
                          | Inr st \<Rightarrow>
                              postSummary svc (successCount st) (fallbackCount st)
                                (length comments) st))
                | _ \<Rightarrow> emit Fatal (startRun w2))))"

subsection \<open>The lookup of the changed file as the specification words it\<close>

text \<open>The changed set is searched by new path first, and by old path when that finds nothing.\<close>

definition findChange_spec :: "change list \<Rightarrow> jstring \<Rightarrow> change option" where
  "findChange_spec changes f =
     (case find (\<lambda>c. new_path c = f) changes of
        Some c \<Rightarrow> Some c
      | None \<Rightarrow> find (\<lambda>c. old_path c = f) changes)"

subsection \<open>The example hunk of the specification\<close>

definition specHunk :: jstring where
  "specHunk =
     js ''@@ -1,3 +1,4 @@\<newline> ctxA\<newline>+added1\<newline> ctxB\<newline>-removed1\<newline> ctxC''"

text \<open>The same hunk when its last line ends with a line feed, as in the diffs of the service.\<close>

definition specHunkLF :: jstring where
  "specHunkLF = specHunk @ [LF]"

text \<open>
  Two hunks out of order: the first starts beyond the target 6, so its scan leaves the
  loop early; the second shows the target.
\<close>

definition descendingHunks :: jstring where
  "descendingHunks =
     js ''@@ -20,2 +20,2 @@\<newline> a\<newline> b\<newline>@@ -5,2 +5,2 @@\<newline> c\<newline> d\<newline>''"

text \<open>A text whose only header is garbled.\<close>

definition garbledDiff :: jstring where
  "garbledDiff = js ''@@ -1,3 1,4 @@\<newline> ctxA\<newline>+added1\<newline>''"

subsection \<open>Reading the trace of a run\<close>

fun isSummary :: "request \<Rightarrow> bool" where
  "isSummary (Note (Summary t s f)) = True"
| "isSummary _ = False"

fun isDiscussion :: "request \<Rightarrow> bool" where
  "isDiscussion (Discussion b p) = True"
| "isDiscussion (Note b) = False"

text \<open>The positional posts and the notes that the service has accepted.\<close>

definition acceptedDiscussions :: "(request \<times> bool) list \<Rightarrow> nat" where
  "acceptedDiscussions tr = length (filter (\<lambda>(r, ok). isDiscussion r \<and> ok) tr)"

definition acceptedNotes :: "(request \<times> bool) list \<Rightarrow> nat" where
  "acceptedNotes tr = length (filter (\<lambda>(r, ok). \<not> isDiscussion r \<and> ok) tr)"

subsection \<open>Example data for the dispatch\<close>

text \<open>
  A merge request that renames \<^verbatim>\<open>a.js\<close> to \<^verbatim>\<open>b.js\<close> and adds a new \<^verbatim>\<open>a.js\<close>; the
  entry of the renamed file comes first.
\<close>

definition renamedEntry :: change where
  "renamedEntry =
     \<lparr>new_path = js ''b.js'', old_path = js ''a.js'',
      diff = Some (js ''@@ -1,2 +1,2 @@\<newline> keep\<newline>-old\<newline>+new\<newline>'')\<rparr>"

definition addedEntry :: change where
  "addedEntry =
     \<lparr>new_path = js ''a.js'', old_path = js ''a.js'',
      diff = Some (js ''@@ -0,0 +1,2 @@\<newline>+first\<newline>+second\<newline>'')\<rparr>"

definition exampleRefs :: diffRefs where
  "exampleRefs = \<lparr>base_sha = js ''b0'', head_sha = js ''h0'', start_sha = js ''s0''\<rparr>"

definition exampleWeb :: jstring where
  "exampleWeb = js ''https://git/g/p/-/merge_requests/7''"

definition exampleMr :: mergeRequest where
  "exampleMr = \<lparr>diff_refs = Some exampleRefs, web_url = Some exampleWeb\<rparr>"

definition exampleComment :: reviewComment where
  "exampleComment =
     \<lparr>comment_file = js ''a.js'', comment_line = 2, description = js ''d'', suggestion = None\<rparr>"

text \<open>
  A service that returns the example data and rejects every discussion but accepts every
  note; its state counts the requests.
\<close>

definition rejectingService :: "nat service" where
  "rejectingService =
     \<lparr>getMr = (\<lambda>w. (Some exampleMr, w + 1)),
      getDiffs = (\<lambda>w. (Some (Changes [renamedEntry, addedEntry]), w + 1)),
      axiosPost = (\<lambda>req w. (\<not> isDiscussion req, w + 1))\<rparr>"

text \<open>
  A service whose fetches succeed for a merge request that has no \<^verbatim>\<open>diff_refs\<close> yet, and
  that accepts every post.
\<close>

definition newMrService :: "nat service" where
  "newMrService =
     \<lparr>getMr = (\<lambda>w. (Some \<lparr>diff_refs = None, web_url = Some exampleWeb\<rparr>, w + 1)),
      getDiffs = (\<lambda>w. (Some (Changes [renamedEntry, addedEntry]), w + 1)),
      axiosPost = (\<lambda>req w. (True, w + 1))\<rparr>"

subsection \<open>The invariant of the loop over the comments\<close>

text \<open>
  After \<open>n\<close> comments the counters are the numbers of accepted positional posts and of
  accepted notes, they add up to at most \<open>n\<close>, no summary has been posted, and neither a
  fatal error nor a failed summary has been logged.
\<close>

definition runInv :: "nat \<Rightarrow> 'w run \<Rightarrow> bool" where
  "runInv n st \<longleftrightarrow>
     successCount st = acceptedDiscussions (sent st) \<and>
     fallbackCount st = acceptedNotes (sent st) \<and>
     successCount st + fallbackCount st \<le> n \<and>
     filter (\<lambda>x. isSummary (fst x)) (sent st) = [] \<and>
     Fatal \<notin> set (console st) \<and> WarnSummaryFailed \<notin> set (console st)"
subsection \<open>The header pattern and the split as the claims word them\<close>

text \<open>
  The pattern \<^verbatim>\<open> -N[,M] +C[,D] @@\<close> at the start of a string: a space and a minus, the
  digits \<open>N\<close>, optionally a comma and digits, a space and a plus, the digits \<open>C\<close>,
  optionally a comma and digits, a space and two \<^verbatim>\<open>@\<close>. The result is \<open>(N, C)\<close>.
\<close>

fun literal :: "cu \<Rightarrow> jstring \<Rightarrow> jstring option" where
  "literal x [] = None"
| "literal x (c # r) = (if c = x then Some r else None)"

fun skipCount :: "jstring \<Rightarrow> jstring" where
  "skipCount [] = []"
| "skipCount (c # r) = (if c = COMMA then dropWhile isDigit r else c # r)"

definition headerHere :: "jstring \<Rightarrow> (jstring \<times> jstring) option" where
  "headerHere s =
     (case literal SPACE s of None \<Rightarrow> None | Some s1 \<Rightarrow>
      case literal MINUS s1 of None \<Rightarrow> None | Some s2 \<Rightarrow>
      if takeWhile isDigit s2 = [] then None else
      case literal SPACE (skipCount (dropWhile isDigit s2)) of None \<Rightarrow> None | Some s3 \<Rightarrow>
      case literal PLUS s3 of None \<Rightarrow> None | Some s4 \<Rightarrow>
      if takeWhile isDigit s4 = [] then None else
      case literal SPACE (skipCount (dropWhile isDigit s4)) of None \<Rightarrow> None | Some s5 \<Rightarrow>
      case literal AT s5 of None \<Rightarrow> None | Some s6 \<Rightarrow>
      case literal AT s6 of None \<Rightarrow> None | Some s7 \<Rightarrow>
      Some (takeWhile isDigit s2, takeWhile isDigit s4))"

text \<open>The optional part \<^verbatim>\<open>[,M]\<close> of the pattern: nothing, or a comma followed by digits.\<close>

definition isCount :: "jstring \<Rightarrow> bool" where
  "isCount w \<longleftrightarrow> w = [] \<or> (startsWith w COMMA \<and> list_all isDigit (tl w))"

text \<open>A string that reads \<^verbatim>\<open> -N[,M] +C[,D] @@\<close> for the digits \<open>n\<close> and \<open>c\<close>.\<close>

definition isHeaderText :: "jstring \<Rightarrow> jstring \<Rightarrow> jstring \<Rightarrow> jstring \<Rightarrow> jstring \<Rightarrow> bool" where
  "isHeaderText w n m c d \<longleftrightarrow>
     w = [SPACE, MINUS] @ n @ m @ [SPACE, PLUS] @ c @ d @ [SPACE, AT, AT] \<and>
     n \<noteq> [] \<and> list_all isDigit n \<and> isCount m \<and>
     c \<noteq> [] \<and> list_all isDigit c \<and> isCount d"

text \<open>The first occurrence of the pattern anywhere in a segment.\<close>

fun firstHeader :: "jstring \<Rightarrow> (jstring \<times> jstring) option" where
  "firstHeader [] = None"
| "firstHeader (c # r) =
     (case headerHere (c # r) of Some g \<Rightarrow> Some g | None \<Rightarrow> firstHeader r)"

text \<open>
  The lines of a text, each with the line terminator that ends it, and the segments they
  form: every line that begins with \<^verbatim>\<open>@@\<close> opens a new segment, which starts after the
  two \<^verbatim>\<open>@\<close>; the first segment is the text before the first such line.
\<close>

fun textLines :: "jstring \<Rightarrow> jstring list" where
  "textLines [] = []"
| "textLines (c # r) =
     (if isLineTerminator c then [c] # textLines r
      else (case textLines r of [] \<Rightarrow> [[c]] | l # ls \<Rightarrow> (c # l) # ls))"

fun beginsHeader :: "jstring \<Rightarrow> bool" where
  "beginsHeader (c # d # r) = (c = AT \<and> d = AT)"
| "beginsHeader _ = False"

fun groupHunks :: "jstring list \<Rightarrow> jstring list" where
  "groupHunks [] = [[]]"
| "groupHunks (l # ls) =
     (if beginsHeader l then [] # (drop 2 l @ hd (groupHunks ls)) # tl (groupHunks ls)
      else (l @ hd (groupHunks ls)) # tl (groupHunks ls))"

text \<open>
  The segments of the lines of a text that is entered in the middle of a line (\<open>bol\<close> is
  false): the rest of that line belongs to the current segment whatever it begins with.
\<close>

fun groupFrom :: "bool \<Rightarrow> jstring list \<Rightarrow> jstring list" where
  "groupFrom True ls = groupHunks ls"
| "groupFrom False [] = [[]]"
| "groupFrom False (l # ls) = (l @ hd (groupHunks ls)) # tl (groupHunks ls)"

text \<open>
  The locator in these words: split the text at the lines that begin with \<^verbatim>\<open>@@\<close>, take
  the counters of a segment from the first occurrence of the pattern anywhere in it, and
  walk the lines of the segment from the second one.
\<close>

fun scanSegments :: "jstring list \<Rightarrow> int \<Rightarrow> position option" where
  "scanSegments [] target = None"
| "scanSegments (seg # segs) target =
     (case firstHeader seg of
        None \<Rightarrow> scanSegments segs target
      | Some (n, c) \<Rightarrow>
          (case walk (drop 1 (splitLines seg)) (parseInt n) (parseInt c) target of
             Found pos \<Rightarrow> Some pos
           | _ \<Rightarrow> scanSegments segs target))"

definition findLineInDiff_words :: "jstring \<Rightarrow> int \<Rightarrow> position option" where
  "findLineInDiff_words text target =
     (if text = [] then None
      else scanSegments (drop 1 (groupHunks (textLines text))) target)"

text \<open>
  A text whose header line is garbled while a line of its body contains the pattern, and a
  segment with the pattern on its third line.
\<close>

definition bodyHeaderDiff :: jstring where
  "bodyHeaderDiff = js ''@@ -1,3 1,4 @@\<newline> -5 +7 @@\<newline>+added1\<newline>''"

definition lateHeaderSegment :: jstring where
  "lateHeaderSegment = js '' bogus\<newline> ctx\<newline> -5,2 +7,2 @@\<newline>''"

section \<open>Properties of the locator\<close>

subsection \<open>The walk over one hunk\<close>

lemma newAdvance_nonneg: "0 \<le> newAdvance pre"
  by (simp add: newAdvance_def)

lemma newAdvance_Cons:
  "newAdvance (l # pre) = (if startsWith l MINUS then 0 else 1) + newAdvance pre"
  by (simp add: newAdvance_def)

lemma oldAdvance_Cons:
  "oldAdvance (l # pre) = (if startsWith l PLUS then 0 else 1) + oldAdvance pre"
  by (simp add: oldAdvance_def)

lemma newAdvance_Nil: "newAdvance [] = 0" by (simp add: newAdvance_def)
lemma oldAdvance_Nil: "oldAdvance [] = 0" by (simp add: oldAdvance_def)

lemma startsWith_MINUS_not_PLUS: "startsWith l MINUS \<Longrightarrow> \<not> startsWith l PLUS"
  by (cases l) (auto simp: MINUS_def PLUS_def)

lemma lineStep_removed: "startsWith l MINUS \<Longrightarrow> lineStep l old new target = Inr (old + 1, new)"
  by (simp add: lineStep_def)

lemma walk_Found_decomp:
  "walk ls old new target = Found pos \<Longrightarrow>
   \<exists>pre l suf. ls = pre @ l # suf \<and> \<not> startsWith l MINUS \<and>
     new + newAdvance pre = target \<and>
     pos = \<lparr>oldLine = (if startsWith l PLUS then None else Some (old + oldAdvance pre)),
            newLine = target\<rparr>"
proof (induction ls arbitrary: old new)
  case Nil
  then show ?case by simp
next
  case (Cons x xs)
  show ?case
  proof (cases "lineStep x old new target")
    case (Inl p)
    with Cons.prems have p: "p = pos" by simp
    from Inl have "\<not> startsWith x MINUS" "new = target"
      "pos = \<lparr>oldLine = (if startsWith x PLUS then None else Some old), newLine = target\<rparr>"
      unfolding p by (auto simp: lineStep_def split: if_splits)
    then have "x # xs = [] @ x # xs \<and> \<not> startsWith x MINUS \<and> new + newAdvance [] = target \<and>
       pos = \<lparr>oldLine = (if startsWith x PLUS then None else Some (old + oldAdvance [])), newLine = target\<rparr>"
      by (simp add: newAdvance_Nil oldAdvance_Nil)
    then show ?thesis by blast
  next
    case (Inr on)
    obtain old' new' where on: "on = (old', new')" by (cases on)
    from Cons.prems Inr on have w: "walk xs old' new' target = Found pos"
      by (simp split: if_splits)
    from Cons.IH [OF w] obtain pre l suf where
      d: "xs = pre @ l # suf" "\<not> startsWith l MINUS" "new' + newAdvance pre = target"
         "pos = \<lparr>oldLine = (if startsWith l PLUS then None else Some (old' + oldAdvance pre)), newLine = target\<rparr>"
      by blast
    from Inr on have s: "old' = old + (if startsWith x PLUS then 0 else 1)"
       "new' = new + (if startsWith x MINUS then 0 else 1)"
      by (auto simp: lineStep_def startsWith_MINUS_not_PLUS split: if_splits)
    have "x # xs = (x # pre) @ l # suf" using d(1) by simp
    moreover have "new + newAdvance (x # pre) = target"
      using d(3) s(2) by (simp add: newAdvance_Cons)
    moreover have "pos = \<lparr>oldLine = (if startsWith l PLUS then None else Some (old + oldAdvance (x # pre))), newLine = target\<rparr>"
      using d(4) s(1) by (simp add: oldAdvance_Cons)
    ultimately show ?thesis using d(2) by blast
  qed
qed

lemma walk_Found_intro:
  "\<not> startsWith l MINUS \<Longrightarrow> new + newAdvance pre = target \<Longrightarrow>
   walk (pre @ l # suf) old new target =
     Found \<lparr>oldLine = (if startsWith l PLUS then None else Some (old + oldAdvance pre)),
            newLine = target\<rparr>"
proof (induction pre arbitrary: old new)
  case Nil
  then show ?case by (simp add: lineStep_def newAdvance_Nil oldAdvance_Nil)
next
  case (Cons x pre)
  have nn: "0 \<le> newAdvance pre" by (rule newAdvance_nonneg)
  show ?case
  proof (cases "startsWith x MINUS")
    case True
    with Cons.prems have n: "new + newAdvance pre = target" by (simp add: newAdvance_Cons)
    from True have np: "\<not> startsWith x PLUS" by (rule startsWith_MINUS_not_PLUS)
    have "\<not> new > target" using n nn by simp
    with True show ?thesis
      using Cons.IH [OF Cons.prems(1) n, of "old + 1"] np
      by (simp add: lineStep_removed oldAdvance_Cons add.assoc)
  next
    case False
    with Cons.prems have n: "(new + 1) + newAdvance pre = target" by (simp add: newAdvance_Cons)
    then have lt: "new \<noteq> target" "\<not> new + 1 > target" using nn by simp_all
    show ?thesis
    proof (cases "startsWith x PLUS")
      case True
      then show ?thesis using False lt Cons.IH [OF Cons.prems(1) n, of old]
        by (simp add: lineStep_def oldAdvance_Cons)
    next
      case np: False
      then show ?thesis using False lt Cons.IH [OF Cons.prems(1) n, of "old + 1"]
        by (simp add: lineStep_def oldAdvance_Cons add.assoc)
    qed
  qed
qed

lemma shownFrom_iff:
  "shownFrom ls new target \<longleftrightarrow>
   (\<exists>pre l suf. ls = pre @ l # suf \<and> \<not> startsWith l MINUS \<and> new + newAdvance pre = target)"
proof (induction ls arbitrary: new)
  case Nil
  then show ?case by simp
next
  case (Cons x xs)
  show ?case (is "?L = ?R")
  proof
    assume ?L
    show ?R
    proof (cases "startsWith x MINUS")
      case True
      with \<open>?L\<close> have "shownFrom xs new target" by simp
      then obtain pre l suf where "xs = pre @ l # suf" "\<not> startsWith l MINUS" "new + newAdvance pre = target"
        using Cons.IH by blast
      then have "x # xs = (x # pre) @ l # suf \<and> \<not> startsWith l MINUS \<and> new + newAdvance (x # pre) = target"
        using True by (simp add: newAdvance_Cons)
      then show ?thesis by blast
    next
      case False
      show ?thesis
      proof (cases "new = target")
        case True
        then have "x # xs = [] @ x # xs \<and> \<not> startsWith x MINUS \<and> new + newAdvance [] = target"
          using False by (simp add: newAdvance_Nil)
        then show ?thesis by blast
      next
        case nt: False
        with \<open>?L\<close> False have "shownFrom xs (new + 1) target" by simp
        then obtain pre l suf where "xs = pre @ l # suf" "\<not> startsWith l MINUS" "new + 1 + newAdvance pre = target"
          using Cons.IH by blast
        then have "x # xs = (x # pre) @ l # suf \<and> \<not> startsWith l MINUS \<and> new + newAdvance (x # pre) = target"
          using False by (simp add: newAdvance_Cons)
        then show ?thesis by blast
      qed
    qed
  next
    assume ?R
    then obtain pre l suf where d: "x # xs = pre @ l # suf" "\<not> startsWith l MINUS" "new + newAdvance pre = target"
      by blast
    show ?L
    proof (cases pre)
      case Nil
      with d show ?thesis by (simp add: newAdvance_Nil)
    next
      case (Cons y pre')
      with d have xs: "xs = pre' @ l # suf" and y: "y = x" by simp_all
      show ?thesis
      proof (cases "startsWith x MINUS")
        case True
        with d(3) Cons y have "new + newAdvance pre' = target" by (simp add: newAdvance_Cons)
        with xs d(2) have "shownFrom xs new target" using Cons.IH by blast
        with True show ?thesis by simp
      next
        case False
        with d(3) Cons y have "new + 1 + newAdvance pre' = target" by (simp add: newAdvance_Cons)
        with xs d(2) have "shownFrom xs (new + 1) target" using \<open>\<And>new. shownFrom xs new target = (\<exists>pre l suf. xs = pre @ l # suf \<and> \<not> startsWith l MINUS \<and> new + newAdvance pre = target)\<close> by blast
        with False show ?thesis by simp
      qed
    qed
  qed
qed

lemma walk_Found_iff_shown:
  "(\<exists>pos. walk ls old new target = Found pos) \<longleftrightarrow> shownFrom ls new target"
  using walk_Found_decomp walk_Found_intro shownFrom_iff by metis

subsection \<open>The loop over the hunks\<close>

lemma scanHunks_Some_decomp:
  "scanHunks hs target = Some pos \<Longrightarrow>
   \<exists>hs1 h hs2. hs = hs1 @ h # hs2 \<and> scanHunk h target = Some (Found pos) \<and>
     (\<forall>h' \<in> set hs1. \<forall>p. scanHunk h' target \<noteq> Some (Found p))"
proof (induction hs)
  case Nil
  then show ?case by simp
next
  case (Cons x xs)
  show ?case
  proof (cases "\<exists>p. scanHunk x target = Some (Found p)")
    case True
    then obtain p where p: "scanHunk x target = Some (Found p)" by blast
    with Cons.prems have "p = pos" by simp
    with p have "x # xs = [] @ x # xs \<and> scanHunk x target = Some (Found pos) \<and>
      (\<forall>h' \<in> set []. \<forall>p. scanHunk h' target \<noteq> Some (Found p))" by simp
    then show ?thesis by blast
  next
    case False
    with Cons.prems have "scanHunks xs target = Some pos"
      by (auto split: option.splits scan.splits)
    from Cons.IH [OF this] obtain hs1 h hs2 where
      d: "xs = hs1 @ h # hs2" "scanHunk h target = Some (Found pos)"
         "\<forall>h' \<in> set hs1. \<forall>p. scanHunk h' target \<noteq> Some (Found p)" by blast
    from d False have "x # xs = (x # hs1) @ h # hs2 \<and> scanHunk h target = Some (Found pos) \<and>
      (\<forall>h' \<in> set (x # hs1). \<forall>p. scanHunk h' target \<noteq> Some (Found p))" by simp
    then show ?thesis by blast
  qed
qed

lemma scanHunks_skip:
  "\<forall>p. scanHunk h target \<noteq> Some (Found p) \<Longrightarrow> scanHunks (h # hs) target = scanHunks hs target"
  by (auto split: option.splits scan.splits)

lemma scanHunks_first:
  "\<forall>h' \<in> set hs1. \<forall>p. scanHunk h' target \<noteq> Some (Found p) \<Longrightarrow>
   scanHunk h target = Some (Found pos) \<Longrightarrow>
   scanHunks (hs1 @ h # hs2) target = Some pos"
  by (induction hs1) (auto split: option.splits scan.splits)

lemma scanHunk_Found_iff_shownIn:
  "(\<exists>pos. scanHunk h target = Some (Found pos)) \<longleftrightarrow> shownIn h target"
  using walk_Found_iff_shown
  by (auto simp: scanHunk_def shownIn_def split: option.splits)

lemma findLineInDiff_scanHunks:
  "findLineInDiff text target = scanHunks (drop 1 (splitHunks text)) target"
  by (simp add: findLineInDiff_def splitHunks_def)

lemma walk_below_start:
  "target < new \<Longrightarrow> walk ls old new target \<noteq> Found pos"
proof
  assume lt: "target < new" and "walk ls old new target = Found pos"
  from walk_Found_decomp [OF this(2)] obtain pre where "new + newAdvance pre = target" by blast
  with newAdvance_nonneg [of pre] lt show False by simp
qed

section \<open>The header expression and the split\<close>

subsection \<open>The backtracking matcher on the header expression\<close>

lemma not_digit_literals:
  "\<not> isDigit SPACE" "\<not> isDigit COMMA" "\<not> isDigit MINUS" "\<not> isDigit PLUS" "\<not> isDigit AT"
  "COMMA \<noteq> SPACE"
  by (simp_all add: isDigit_def SPACE_def COMMA_def MINUS_def PLUS_def AT_def)

lemma backtrack_Once:
  "backtrack ((Lit x, Once) # p) s =
     (case literal x s of
        None \<Rightarrow> None
      | Some r \<Rightarrow> (case backtrack p r of None \<Rightarrow> None | Some ms \<Rightarrow> Some ([x] # ms)))"
  by (cases s) (auto split: option.splits)

text \<open>
  A greedy run of digits takes all the digits, provided that the rest of the expression
  cannot succeed after fewer digits when it fails after all of them.
\<close>

lemma backtrack_Star_Digit:
  assumes "\<And>d r. isDigit d \<Longrightarrow> backtrack p (dropWhile isDigit r) = None \<Longrightarrow> backtrack p (d # r) = None"
  shows "backtrack ((Digit, Star) # p) s =
     (case backtrack p (dropWhile isDigit s) of
        None \<Rightarrow> None
      | Some ms \<Rightarrow> Some (takeWhile isDigit s # ms))"
proof (induction s)
  case Nil
  then show ?case by (simp split: option.splits)
next
  case (Cons c r)
  show ?case
  proof (cases "isDigit c")
    case False
    then show ?thesis by (simp split: option.splits)
  next
    case True
    show ?thesis
    proof (cases "backtrack p (dropWhile isDigit r)")
      case None
      with assms [OF True] have "backtrack p (c # r) = None" by simp
      with True None Cons.IH show ?thesis by simp
    next
      case (Some ms)
      with True Cons.IH show ?thesis by simp
    qed
  qed
qed

lemma backtrack_Plus_Digit:
  assumes "\<And>d r. isDigit d \<Longrightarrow> backtrack p (dropWhile isDigit r) = None \<Longrightarrow> backtrack p (d # r) = None"
  shows "backtrack ((Digit, Plus) # p) s =
     (if takeWhile isDigit s = [] then None
      else (case backtrack p (dropWhile isDigit s) of
              None \<Rightarrow> None
            | Some ms \<Rightarrow> Some (takeWhile isDigit s # ms)))"
proof (cases s)
  case Nil
  then show ?thesis by simp
next
  case (Cons c r)
  then show ?thesis
    by (simp add: backtrack_Star_Digit [OF assms] split: option.splits)
qed

lemma backtrack_Opt:
  "backtrack ((Lit x, Opt) # p) s =
     (case (case literal x s of None \<Rightarrow> None | Some r \<Rightarrow> backtrack p r) of
        Some ms \<Rightarrow> Some ([x] # ms)
      | None \<Rightarrow> (case backtrack p s of None \<Rightarrow> None | Some ms \<Rightarrow> Some ([] # ms)))"
  by (cases s) (auto split: option.splits)

lemma backtrack_Nil: "backtrack [] s = Some []"
  by simp

declare backtrack.simps [simp del]

lemma literal_Some: "literal x s = Some r \<longleftrightarrow> s = x # r"
  by (cases s) auto

lemma literal_None: "literal x s = None \<longleftrightarrow> \<not> startsWith s x"
  by (cases s) auto

text \<open>
  The optional count \<^verbatim>\<open>,?\d*\<close> before a space: after a comma, or without one, the digits
  are taken.
\<close>

lemma backtrack_count:
  "backtrack ((Lit COMMA, Opt) # (Digit, Star) # (Lit SPACE, Once) # q) s =
     (case backtrack ((Lit SPACE, Once) # q)
             (dropWhile isDigit (if startsWith s COMMA then tl s else s)) of
        None \<Rightarrow> None
      | Some ms \<Rightarrow>
          Some ((if startsWith s COMMA then [COMMA] else []) #
                takeWhile isDigit (if startsWith s COMMA then tl s else s) # ms))"
proof -
  have star: "\<And>t. backtrack ((Digit, Star) # (Lit SPACE, Once) # q) t =
     (case backtrack ((Lit SPACE, Once) # q) (dropWhile isDigit t) of
        None \<Rightarrow> None
      | Some ms \<Rightarrow> Some (takeWhile isDigit t # ms))"
    by (rule backtrack_Star_Digit) (auto simp: backtrack_Once not_digit_literals)
  show ?thesis
  proof (cases "startsWith s COMMA")
    case True
    then obtain r where s: "s = COMMA # r" by (cases s) auto
    show ?thesis
      unfolding backtrack_Opt star s
      by (simp add: backtrack_Once not_digit_literals split: option.splits)
  next
    case False
    then have "literal COMMA s = None" by (simp add: literal_None)
    with False show ?thesis
      unfolding backtrack_Opt star by (simp split: option.splits)
  qed
qed

lemma backtrack_count_digit:
  assumes "isDigit d"
    and "backtrack ((Lit COMMA, Opt) # (Digit, Star) # (Lit SPACE, Once) # q) (dropWhile isDigit r) = None"
  shows "backtrack ((Lit COMMA, Opt) # (Digit, Star) # (Lit SPACE, Once) # q) (d # r) = None"
proof -
  let ?t = "dropWhile isDigit r"
  have nd: "\<not> startsWith (d # r) COMMA" using assms(1) by (auto simp: not_digit_literals)
  have t: "dropWhile isDigit ?t = ?t" by (simp add: dropWhile_idem)
  have "backtrack ((Lit SPACE, Once) # q) ?t = None"
  proof (cases "startsWith ?t COMMA")
    case True
    then obtain r' where "?t = COMMA # r'" by (cases ?t) auto
    then show ?thesis by (simp add: backtrack_Once not_digit_literals)
  next
    case False
    with assms(2) t show ?thesis
      by (simp add: backtrack_count split: option.splits)
  qed
  with nd assms(1) show ?thesis
    by (simp add: backtrack_count)
qed

text \<open>After a maximal run of digits the optional count is what \<open>skipCount\<close> skips.\<close>

lemma backtrack_count_no_digit:
  assumes "dropWhile isDigit t = t"
  shows "backtrack ((Lit COMMA, Opt) # (Digit, Star) # (Lit SPACE, Once) # q) t =
     (case backtrack ((Lit SPACE, Once) # q) (skipCount t) of
        None \<Rightarrow> None
      | Some ms \<Rightarrow>
          Some ((if startsWith t COMMA then [COMMA] else []) #
                (if startsWith t COMMA then takeWhile isDigit (tl t) else []) # ms))"
proof (cases t)
  case Nil
  then show ?thesis by (simp add: backtrack_count split: option.splits)
next
  case (Cons c r)
  have nd: "\<not> isDigit c"
    using hd_dropWhile [of isDigit t] assms Cons by (metis list.sel(1) list.distinct(1))
  with Cons show ?thesis
    by (cases "c = COMMA") (simp_all add: backtrack_count split: option.splits)
qed

text \<open>The digits of a start value followed by the optional count and a space.\<close>

lemma backtrack_range:
  "backtrack ((Digit, Plus) # (Lit COMMA, Opt) # (Digit, Star) # (Lit SPACE, Once) # q) s =
     (if takeWhile isDigit s = [] then None
      else (case literal SPACE (skipCount (dropWhile isDigit s)) of
              None \<Rightarrow> None
            | Some r \<Rightarrow>
                (case backtrack q r of
                   None \<Rightarrow> None
                 | Some ms \<Rightarrow>
                     Some (takeWhile isDigit s # countGroups (dropWhile isDigit s) @ [SPACE] # ms))))"
proof -
  have idem: "dropWhile isDigit (dropWhile isDigit s) = dropWhile isDigit s"
    by (rule dropWhile_idem)
  have plus: "backtrack ((Digit, Plus) # (Lit COMMA, Opt) # (Digit, Star) # (Lit SPACE, Once) # q) s =
     (if takeWhile isDigit s = [] then None
      else (case backtrack ((Lit COMMA, Opt) # (Digit, Star) # (Lit SPACE, Once) # q) (dropWhile isDigit s) of
              None \<Rightarrow> None
            | Some ms \<Rightarrow> Some (takeWhile isDigit s # ms)))"
    by (rule backtrack_Plus_Digit) (rule backtrack_count_digit)
  show ?thesis
    unfolding plus backtrack_count_no_digit [OF idem] backtrack_Once
    by (simp add: countGroups_def split: option.splits)
qed

lemma headerRe_backtrack:
  "(case backtrack headerRe s of None \<Rightarrow> None | Some ms \<Rightarrow> Some (ms ! 2, ms ! 7)) = headerHere s"
  unfolding headerRe_def headerHere_def backtrack_Once backtrack_range backtrack_Nil
  by (simp add: countGroups_def split: option.splits)

lemma headerMatch_firstHeader: "headerMatch s = firstHeader s"
  unfolding headerMatch_def
proof (induction s)
  case Nil
  have "headerHere [] = None" by (simp add: headerHere_def)
  with headerRe_backtrack [of "[]"] show ?case by (simp split: option.splits)
next
  case (Cons c r)
  show ?case
  proof (cases "backtrack headerRe (c # r)")
    case None
    with headerRe_backtrack [of "c # r"] have "headerHere (c # r) = None" by simp
    with None Cons.IH show ?thesis by simp
  next
    case (Some ms)
    with headerRe_backtrack [of "c # r"] have "headerHere (c # r) = Some (ms ! 2, ms ! 7)" by simp
    with Some show ?thesis by simp
  qed
qed

subsection \<open>The split at the header lines\<close>

lemma textLines_Cons: "\<exists>l ls. textLines (d # r) = (d # l) # ls"
  by (cases "textLines r") auto

lemma groupHunks_not_Nil: "groupHunks ls \<noteq> []"
  by (cases ls) auto

lemma groupFrom_not_Nil: "groupFrom b ls \<noteq> []"
  by (cases "(b, ls)" rule: groupFrom.cases) (auto simp: groupHunks_not_Nil)

lemma groupFrom_plain:
  "\<not> (b \<and> beginsHeader l) \<Longrightarrow> groupFrom b (l # ls) = (l @ hd (groupHunks ls)) # tl (groupHunks ls)"
  by (cases b) auto

lemma AT_not_terminator: "\<not> isLineTerminator AT"
  by (simp add: isLineTerminator_def AT_def)

lemma splitHeader_groupFrom:
  "splitHeader bol acc s =
     (acc @ hd (groupFrom bol (textLines s))) # tl (groupFrom bol (textLines s))"
proof (induction bol acc s rule: splitHeader.induct)
  case (1 bol acc)
  then show ?case by (cases bol) simp_all
next
  case (2 bol acc c)
  have "textLines [c] = [[c]]" by simp
  then show ?case by (cases bol) simp_all
next
  case (3 bol acc c d r)
  show ?case
  proof (cases "bol \<and> c = AT \<and> d = AT")
    case True
    then have bol: "bol = True" and c: "c = AT" and d: "d = AT" by simp_all
    have lhs: "splitHeader bol acc (c # d # r) = acc # groupFrom False (textLines r)"
      using True "3.IH"(1) groupFrom_not_Nil [of False "textLines r"] by simp
    show ?thesis
    proof (cases "textLines r")
      case Nil
      then have "textLines (c # d # r) = [[AT, AT]]"
        unfolding c d by (simp add: AT_not_terminator)
      with lhs Nil bol show ?thesis by simp
    next
      case (Cons l ls)
      then have "textLines (c # d # r) = (AT # AT # l) # ls"
        unfolding c d by (simp add: AT_not_terminator)
      with lhs Cons bol show ?thesis by simp
    qed
  next
    case False
    then have lhs: "splitHeader bol acc (c # d # r) =
        (acc @ [c] @ hd (groupFrom (isLineTerminator c) (textLines (d # r)))) #
          tl (groupFrom (isLineTerminator c) (textLines (d # r)))"
      using "3.IH"(2) by auto
    obtain l ls where t: "textLines (d # r) = (d # l) # ls"
      using textLines_Cons by blast
    show ?thesis
    proof (cases "isLineTerminator c")
      case True
      then have tl: "textLines (c # d # r) = [c] # textLines (d # r)" by simp
      have "groupFrom bol ([c] # textLines (d # r)) =
          ([c] @ hd (groupHunks (textLines (d # r)))) # tl (groupHunks (textLines (d # r)))"
        by (rule groupFrom_plain) simp
      with lhs True tl show ?thesis by simp
    next
      case nt: False
      then have tl: "textLines (c # d # r) = (c # d # l) # ls"
        using t by simp
      have "\<not> (bol \<and> beginsHeader (c # d # l))" using False by simp
      then have "groupFrom bol ((c # d # l) # ls) =
          ((c # d # l) @ hd (groupHunks ls)) # tl (groupHunks ls)"
        by (rule groupFrom_plain)
      with lhs nt tl t show ?thesis by simp
    qed
  qed
qed

lemma splitHunks_groupHunks: "splitHunks s = groupHunks (textLines s)"
  unfolding splitHunks_def splitHeader_groupFrom
  using groupHunks_not_Nil [of "textLines s"] by simp

lemma scanHunks_scanSegments: "scanHunks hs target = scanSegments hs target"
proof (induction hs)
  case Nil
  then show ?case by simp
next
  case (Cons h hs)
  then show ?case
    by (cases "firstHeader h")
       (auto simp: scanHunk_def headerMatch_firstHeader split: scan.splits)
qed

subsection \<open>The pattern as a text\<close>

lemma skipCount_decomp: "dropWhile isDigit t = t \<Longrightarrow> \<exists>m. t = m @ skipCount t \<and> isCount m"
proof (cases t)
  case Nil
  then show ?thesis by (simp add: isCount_def)
next
  case (Cons x r)
  show ?thesis
  proof (cases "x = COMMA")
    case True
    have "t = (COMMA # takeWhile isDigit r) @ skipCount t \<and> isCount (COMMA # takeWhile isDigit r)"
      using Cons True by (simp add: isCount_def list_all_iff) (meson set_takeWhileD)
    then show ?thesis by blast
  next
    case False
    with Cons have "t = [] @ skipCount t \<and> isCount []" by (simp add: isCount_def)
    then show ?thesis by blast
  qed
qed

lemma skipCount_count:
  "isCount m \<Longrightarrow> skipCount (m @ SPACE # r) = SPACE # r"
proof (cases m)
  case Nil
  then show ?thesis by (simp add: not_digit_literals(6) [symmetric])
next
  case (Cons x xs)
  assume "isCount m"
  with Cons have x: "x = COMMA" and d: "list_all isDigit xs" by (simp_all add: isCount_def)
  from d have "dropWhile isDigit (xs @ SPACE # r) = SPACE # r"
    by (induction xs) (simp_all add: not_digit_literals)
  with Cons x show ?thesis by simp
qed

lemma count_not_digit: "isCount m \<Longrightarrow> m @ SPACE # r \<noteq> [] \<and> \<not> isDigit (hd (m @ SPACE # r))"
  by (cases m) (auto simp: isCount_def not_digit_literals)

lemma digits_then_count:
  assumes "list_all isDigit n" "isCount m"
  shows "takeWhile isDigit (n @ m @ SPACE # r) = n"
    and "skipCount (dropWhile isDigit (n @ m @ SPACE # r)) = SPACE # r"
proof -
  from count_not_digit [OF assms(2), of r]
  have nd: "\<not> isDigit (hd (m @ SPACE # r))" and ne: "m @ SPACE # r \<noteq> []" by simp_all
  from assms(1) have t: "takeWhile isDigit (n @ m @ SPACE # r) = n \<and>
      dropWhile isDigit (n @ m @ SPACE # r) = m @ SPACE # r"
  proof (induction n)
    case Nil
    from ne nd show ?case by (cases "m @ SPACE # r") auto
  next
    case (Cons a n)
    then show ?case by simp
  qed
  then show "takeWhile isDigit (n @ m @ SPACE # r) = n" by simp
  from t skipCount_count [OF assms(2)]
  show "skipCount (dropWhile isDigit (n @ m @ SPACE # r)) = SPACE # r" by simp
qed

lemma headerHere_intro:
  assumes "isHeaderText w n m c d"
  shows "headerHere (w @ rest) = Some (n, c)"
proof -
  from assms have w: "w = [SPACE, MINUS] @ n @ m @ [SPACE, PLUS] @ c @ d @ [SPACE, AT, AT]"
    and n: "n \<noteq> []" "list_all isDigit n" "isCount m"
    and c: "c \<noteq> []" "list_all isDigit c" "isCount d"
    by (simp_all add: isHeaderText_def)
  let ?s4 = "c @ d @ SPACE # AT # AT # rest"
  have 1: "takeWhile isDigit (n @ m @ SPACE # PLUS # ?s4) = n"
    "skipCount (dropWhile isDigit (n @ m @ SPACE # PLUS # ?s4)) = SPACE # PLUS # ?s4"
    using digits_then_count [OF n(2,3)] by simp_all
  have 2: "takeWhile isDigit ?s4 = c"
    "skipCount (dropWhile isDigit ?s4) = SPACE # AT # AT # rest"
    using digits_then_count [OF c(2,3)] by simp_all
  show ?thesis
    unfolding w headerHere_def using 1 2 n(1) c(1) by simp
qed

lemma headerHere_decomp:
  assumes "headerHere s = Some (n, c)"
  shows "\<exists>w m d rest. s = w @ rest \<and> isHeaderText w n m c d"
proof -
  from assms obtain s2 s4 s7 where
    s: "s = SPACE # MINUS # s2" and n: "n = takeWhile isDigit s2" "n \<noteq> []"
    and k1: "skipCount (dropWhile isDigit s2) = SPACE # PLUS # s4"
    and c: "c = takeWhile isDigit s4" "c \<noteq> []"
    and k2: "skipCount (dropWhile isDigit s4) = SPACE # AT # AT # s7"
    unfolding headerHere_def
    by (auto simp: literal_Some split: option.splits if_splits)
  from skipCount_decomp [of "dropWhile isDigit s2"] obtain m where
    m: "dropWhile isDigit s2 = m @ skipCount (dropWhile isDigit s2)" "isCount m"
    by (auto simp: dropWhile_idem)
  from skipCount_decomp [of "dropWhile isDigit s4"] obtain d where
    d: "dropWhile isDigit s4 = d @ skipCount (dropWhile isDigit s4)" "isCount d"
    by (auto simp: dropWhile_idem)
  have m': "dropWhile isDigit s2 = m @ SPACE # PLUS # s4" using m(1) k1 by simp
  have d': "dropWhile isDigit s4 = d @ SPACE # AT # AT # s7" using d(1) k2 by simp
  have "s2 = takeWhile isDigit s2 @ dropWhile isDigit s2" by simp
  then have s2: "s2 = n @ m @ SPACE # PLUS # s4" unfolding m' n(1) .
  have "s4 = takeWhile isDigit s4 @ dropWhile isDigit s4" by simp
  then have s4: "s4 = c @ d @ SPACE # AT # AT # s7" unfolding d' c(1) .
  have dn: "list_all isDigit n" unfolding n(1) list_all_iff by (meson set_takeWhileD)
  have dc: "list_all isDigit c" unfolding c(1) list_all_iff by (meson set_takeWhileD)
  let ?w = "[SPACE, MINUS] @ n @ m @ [SPACE, PLUS] @ c @ d @ [SPACE, AT, AT]"
  have "s = ?w @ s7" using s s2 s4 by simp
  moreover have "isHeaderText ?w n m c d"
    using n(2) c(2) dn dc m(2) d(2) by (simp add: isHeaderText_def)
  ultimately show ?thesis by blast
qed

lemma headerHere_iff:
  "headerHere s = Some (n, c) \<longleftrightarrow> (\<exists>w m d rest. s = w @ rest \<and> isHeaderText w n m c d)"
  using headerHere_decomp headerHere_intro by blast

lemma headerHere_Nil: "headerHere [] = None"
  by (simp add: headerHere_def)

text \<open>The first occurrence: the pattern is at some position and at no position before it.\<close>

lemma firstHeader_iff:
  "firstHeader s = Some g \<longleftrightarrow>
   (\<exists>pre suf. s = pre @ suf \<and> headerHere suf = Some g \<and>
      (\<forall>pre' suf'. s = pre' @ suf' \<and> length pre' < length pre \<longrightarrow> headerHere suf' = None))"
proof (induction s)
  case Nil
  then show ?case by (simp add: headerHere_Nil)
next
  case (Cons x r)
  show ?case
  proof (cases "headerHere (x # r)")
    case (Some h)
    show ?thesis
    proof
      assume "firstHeader (x # r) = Some g"
      with Some have "h = g" by simp
      with Some have "x # r = [] @ (x # r) \<and> headerHere (x # r) = Some g \<and>
        (\<forall>pre' suf'. x # r = pre' @ suf' \<and> length pre' < length ([]::jstring) \<longrightarrow> headerHere suf' = None)"
        by simp
      then show "\<exists>pre suf. x # r = pre @ suf \<and> headerHere suf = Some g \<and>
        (\<forall>pre' suf'. x # r = pre' @ suf' \<and> length pre' < length pre \<longrightarrow> headerHere suf' = None)"
        by blast
    next
      assume "\<exists>pre suf. x # r = pre @ suf \<and> headerHere suf = Some g \<and>
        (\<forall>pre' suf'. x # r = pre' @ suf' \<and> length pre' < length pre \<longrightarrow> headerHere suf' = None)"
      then obtain pre suf where d: "x # r = pre @ suf" "headerHere suf = Some g"
        "\<forall>pre' suf'. x # r = pre' @ suf' \<and> length pre' < length pre \<longrightarrow> headerHere suf' = None"
        by blast
      have "pre = []"
      proof (rule ccontr)
        assume "pre \<noteq> []"
        then have "x # r = [] @ (x # r) \<and> length ([]::jstring) < length pre" by simp
        with d(3) have "headerHere (x # r) = None" by blast
        with Some show False by simp
      qed
      with d(1) have "suf = x # r" by simp
      with d(2) show "firstHeader (x # r) = Some g" by simp
    qed
  next
    case None
    then have f: "firstHeader (x # r) = firstHeader r" by simp
    show ?thesis unfolding f Cons.IH
    proof
      assume "\<exists>pre suf. r = pre @ suf \<and> headerHere suf = Some g \<and>
        (\<forall>pre' suf'. r = pre' @ suf' \<and> length pre' < length pre \<longrightarrow> headerHere suf' = None)"
      then obtain pre suf where d: "r = pre @ suf" "headerHere suf = Some g"
        "\<forall>pre' suf'. r = pre' @ suf' \<and> length pre' < length pre \<longrightarrow> headerHere suf' = None"
        by blast
      have "\<forall>pre' suf'. x # r = pre' @ suf' \<and> length pre' < length (x # pre) \<longrightarrow> headerHere suf' = None"
      proof (intro allI impI)
        fix pre' suf' assume a: "x # r = pre' @ suf' \<and> length pre' < length (x # pre)"
        show "headerHere suf' = None"
        proof (cases pre')
          case Nil
          with a None show ?thesis by simp
        next
          case (Cons y p)
          with a have "r = p @ suf' \<and> length p < length pre" by simp
          with d(3) show ?thesis by blast
        qed
      qed
      with d(1,2) have "x # r = (x # pre) @ suf \<and> headerHere suf = Some g \<and>
        (\<forall>pre' suf'. x # r = pre' @ suf' \<and> length pre' < length (x # pre) \<longrightarrow> headerHere suf' = None)"
        by simp
      then show "\<exists>pre suf. x # r = pre @ suf \<and> headerHere suf = Some g \<and>
        (\<forall>pre' suf'. x # r = pre' @ suf' \<and> length pre' < length pre \<longrightarrow> headerHere suf' = None)"
        by blast
    next
      assume "\<exists>pre suf. x # r = pre @ suf \<and> headerHere suf = Some g \<and>
        (\<forall>pre' suf'. x # r = pre' @ suf' \<and> length pre' < length pre \<longrightarrow> headerHere suf' = None)"
      then obtain pre suf where d: "x # r = pre @ suf" "headerHere suf = Some g"
        "\<forall>pre' suf'. x # r = pre' @ suf' \<and> length pre' < length pre \<longrightarrow> headerHere suf' = None"
        by blast
      from d(1,2) None obtain p where p: "pre = x # p" by (cases pre) auto
      with d(1) have r: "r = p @ suf" by simp
      have "\<forall>pre' suf'. r = pre' @ suf' \<and> length pre' < length p \<longrightarrow> headerHere suf' = None"
      proof (intro allI impI)
        fix pre' suf' assume "r = pre' @ suf' \<and> length pre' < length p"
        then have "x # r = (x # pre') @ suf' \<and> length (x # pre') < length pre" using p by simp
        with d(3) show "headerHere suf' = None" by blast
      qed
      with r d(2) show "\<exists>pre suf. r = pre @ suf \<and> headerHere suf = Some g \<and>
        (\<forall>pre' suf'. r = pre' @ suf' \<and> length pre' < length pre \<longrightarrow> headerHere suf' = None)"
        by blast
    qed
  qed
qed

lemma findLineInDiff_words_eq: "findLineInDiff text target = findLineInDiff_words text target"
  by (simp add: findLineInDiff_def findLineInDiff_words_def splitHunks_groupHunks
      scanHunks_scanSegments)

section \<open>The claims about the locator\<close>

text \<open>
  C1. Whenever the locator returns a position, its new line is the target. The position
  comes from a line of the body of some hunk that is not a removed line and whose new line
  number (the new start of the header plus the number of lines before it that are not
  removed) is the target; the old line is absent exactly when that line is an added line,
  and for a context line it is the paired old line number (the old start plus the number
  of lines before it that are not added). A removed line only advances the old counter,
  whatever the target is.
\<close>

theorem findLineInDiff_position:
  assumes "findLineInDiff text target = Some pos"
  shows "newLine pos = target \<and>
    (\<exists>hunk g1 g2 pre l suf.
       hunk \<in> set (drop 1 (splitHunks text)) \<and> headerMatch hunk = Some (g1, g2) \<and>
       drop 1 (splitLines hunk) = pre @ l # suf \<and>
       \<not> startsWith l MINUS \<and>
       parseInt g2 + newAdvance pre = target \<and>
       (oldLine pos = None \<longleftrightarrow> startsWith l PLUS) \<and>
       (\<not> startsWith l PLUS \<longrightarrow> oldLine pos = Some (parseInt g1 + oldAdvance pre))) \<and>
    (\<forall>r old new t. startsWith r MINUS \<longrightarrow> lineStep r old new t = Inr (old + 1, new))"
proof -
  from assms have "scanHunks (drop 1 (splitHunks text)) target = Some pos"
    by (simp add: findLineInDiff_scanHunks)
  from scanHunks_Some_decomp [OF this] obtain hs1 h hs2 where
    d: "drop 1 (splitHunks text) = hs1 @ h # hs2" "scanHunk h target = Some (Found pos)" by blast
  from d(1) have mem: "h \<in> set (drop 1 (splitHunks text))" by simp
  from d(2) obtain g1 g2 where
    m: "headerMatch h = Some (g1, g2)" and
    w: "walk (drop 1 (splitLines h)) (parseInt g1) (parseInt g2) target = Found pos"
    by (auto simp: scanHunk_def split: option.splits)
  from walk_Found_decomp [OF w] obtain pre l suf where
    p: "drop 1 (splitLines h) = pre @ l # suf" "\<not> startsWith l MINUS"
       "parseInt g2 + newAdvance pre = target"
       "pos = \<lparr>oldLine = (if startsWith l PLUS then None else Some (parseInt g1 + oldAdvance pre)),
              newLine = target\<rparr>"
    by blast
  from p(4) have n: "newLine pos = target" by simp
  from p(4) have o: "(oldLine pos = None \<longleftrightarrow> startsWith l PLUS)"
    "\<not> startsWith l PLUS \<longrightarrow> oldLine pos = Some (parseInt g1 + oldAdvance pre)" by simp_all
  have r: "\<forall>r old new t. startsWith r MINUS \<longrightarrow> lineStep r old new t = Inr (old + 1, new)"
    by (simp add: lineStep_removed)
  have "\<exists>hunk g1 g2 pre l suf.
       hunk \<in> set (drop 1 (splitHunks text)) \<and> headerMatch hunk = Some (g1, g2) \<and>
       drop 1 (splitLines hunk) = pre @ l # suf \<and>
       \<not> startsWith l MINUS \<and>
       parseInt g2 + newAdvance pre = target \<and>
       (oldLine pos = None \<longleftrightarrow> startsWith l PLUS) \<and>
       (\<not> startsWith l PLUS \<longrightarrow> oldLine pos = Some (parseInt g1 + oldAdvance pre))"
    by (intro exI conjI) (rule mem, rule m, rule p(1), rule p(2), rule p(3), rule o(1), rule o(2))
  with n r show ?thesis by blast
qed

theorem findLineInDiff_position_witness:
  "findLineInDiff specHunk 2 = Some \<lparr>oldLine = None, newLine = 2\<rparr> \<and>
   newLine \<lparr>oldLine = None, newLine = 2\<rparr> = 2 \<and>
   (\<exists>hunk g1 g2 pre l suf.
       hunk \<in> set (drop 1 (splitHunks specHunk)) \<and> headerMatch hunk = Some (g1, g2) \<and>
       drop 1 (splitLines hunk) = pre @ l # suf \<and>
       \<not> startsWith l MINUS \<and>
       parseInt g2 + newAdvance pre = 2 \<and>
       startsWith l PLUS)"
proof -
  have h: "findLineInDiff specHunk 2 = Some \<lparr>oldLine = None, newLine = 2\<rparr>"
    by code_simp
  from findLineInDiff_position [OF h] show ?thesis using h by simp
qed

text \<open>
  C2. On the single hunk with header \<^verbatim>\<open>@@ -1,3 +1,4 @@\<close> and the body lines
  \<^verbatim>\<open>" ctxA", "+added1", " ctxB", "-removed1", " ctxC"\<close>, the locator returns
  old line 1 and new line 1 for target 1, no old line and new line 2 for target 2, old line 2
  and new line 3 for target 3, old line 4 and new line 4 for target 4, and nothing for
  target 99. The results are the same when the last line ends with a line feed.
\<close>

theorem findLineInDiff_specHunk:
  "findLineInDiff specHunk 1 = Some \<lparr>oldLine = Some 1, newLine = 1\<rparr> \<and>
   findLineInDiff specHunk 2 = Some \<lparr>oldLine = None, newLine = 2\<rparr> \<and>
   findLineInDiff specHunk 3 = Some \<lparr>oldLine = Some 2, newLine = 3\<rparr> \<and>
   findLineInDiff specHunk 4 = Some \<lparr>oldLine = Some 4, newLine = 4\<rparr> \<and>
   findLineInDiff specHunk 99 = None \<and>
   findLineInDiff specHunkLF 1 = Some \<lparr>oldLine = Some 1, newLine = 1\<rparr> \<and>
   findLineInDiff specHunkLF 2 = Some \<lparr>oldLine = None, newLine = 2\<rparr> \<and>
   findLineInDiff specHunkLF 3 = Some \<lparr>oldLine = Some 2, newLine = 3\<rparr> \<and>
   findLineInDiff specHunkLF 4 = Some \<lparr>oldLine = Some 4, newLine = 4\<rparr> \<and>
   findLineInDiff specHunkLF 99 = None"
  by code_simp

text \<open>
  C4. The hunks are scanned in order, each on its own, and the first match wins: when the
  target is shown by a hunk and by none of the hunks before it, the locator returns the
  position found in that hunk, whether the scans of the earlier hunks were left early or
  ran to their end.
\<close>

theorem later_hunk_found:
  assumes "drop 1 (splitHunks text) = hs1 @ h # hs2"
    and "\<forall>h' \<in> set hs1. \<not> shownIn h' target"
    and "shownIn h target"
  shows "\<exists>pos. findLineInDiff text target = Some pos \<and> newLine pos = target \<and>
           scanHunk h target = Some (Found pos)"
proof -
  from assms(3) obtain pos where p: "scanHunk h target = Some (Found pos)"
    using scanHunk_Found_iff_shownIn by blast
  from assms(2) have "\<forall>h' \<in> set hs1. \<forall>p. scanHunk h' target \<noteq> Some (Found p)"
    using scanHunk_Found_iff_shownIn by blast
  from scanHunks_first [OF this p] assms(1)
  have f: "findLineInDiff text target = Some pos"
    by (simp add: findLineInDiff_scanHunks)
  from p obtain g1 g2 where
    w: "walk (drop 1 (splitLines h)) (parseInt g1) (parseInt g2) target = Found pos"
    by (auto simp: scanHunk_def split: option.splits)
  from walk_Found_decomp [OF w] have "newLine pos = target" by auto
  with f p show ?thesis by blast
qed

theorem later_hunk_found_witness:
  "drop 1 (splitHunks descendingHunks) =
     [js '' -20,2 +20,2 @@\<newline> a\<newline> b\<newline>''] @ js '' -5,2 +5,2 @@\<newline> c\<newline> d\<newline>'' # [] \<and>
   scanHunk (js '' -20,2 +20,2 @@\<newline> a\<newline> b\<newline>'') 6 = Some Broke \<and>
   \<not> shownIn (js '' -20,2 +20,2 @@\<newline> a\<newline> b\<newline>'') 6 \<and>
   shownIn (js '' -5,2 +5,2 @@\<newline> c\<newline> d\<newline>'') 6 \<and>
   findLineInDiff descendingHunks 6 = Some \<lparr>oldLine = Some 6, newLine = 6\<rparr>"
proof -
  have d: "drop 1 (splitHunks descendingHunks) =
     [js '' -20,2 +20,2 @@\<newline> a\<newline> b\<newline>''] @ js '' -5,2 +5,2 @@\<newline> c\<newline> d\<newline>'' # []"
    by code_simp
  have b: "scanHunk (js '' -20,2 +20,2 @@\<newline> a\<newline> b\<newline>'') 6 = Some Broke"
    by code_simp
  have n: "\<forall>h' \<in> set [js '' -20,2 +20,2 @@\<newline> a\<newline> b\<newline>'']. \<not> shownIn h' 6"
    by code_simp
  have s: "shownIn (js '' -5,2 +5,2 @@\<newline> c\<newline> d\<newline>'') 6"
    by code_simp
  have f: "scanHunk (js '' -5,2 +5,2 @@\<newline> c\<newline> d\<newline>'') 6 = Some (Found \<lparr>oldLine = Some 6, newLine = 6\<rparr>)"
    by code_simp
  from later_hunk_found [OF d n s] f have "findLineInDiff descendingHunks 6 = Some \<lparr>oldLine = Some 6, newLine = 6\<rparr>"
    by auto
  with d b n s show ?thesis by simp
qed

text \<open>
  C8. When every hunk header carries start values of at least 1, a target that is zero or
  negative is not found.
\<close>

theorem nonpositive_target_not_found:
  assumes "\<forall>h \<in> set (drop 1 (splitHunks text)). \<forall>g1 g2.
             headerMatch h = Some (g1, g2) \<longrightarrow> 1 \<le> parseInt g1 \<and> 1 \<le> parseInt g2"
    and "target \<le> 0"
  shows "findLineInDiff text target = None"
proof (rule ccontr)
  assume "findLineInDiff text target \<noteq> None"
  then obtain pos where "scanHunks (drop 1 (splitHunks text)) target = Some pos"
    by (auto simp: findLineInDiff_scanHunks)
  from scanHunks_Some_decomp [OF this] obtain hs1 h hs2 where
    d: "drop 1 (splitHunks text) = hs1 @ h # hs2" "scanHunk h target = Some (Found pos)" by blast
  from d(2) obtain g1 g2 where
    m: "headerMatch h = Some (g1, g2)" and
    w: "walk (drop 1 (splitLines h)) (parseInt g1) (parseInt g2) target = Found pos"
    by (auto simp: scanHunk_def split: option.splits)
  from d(1) have "h \<in> set (drop 1 (splitHunks text))" by simp
  with assms(1) m have "1 \<le> parseInt g2" by blast
  with assms(2) have "target < parseInt g2" by simp
  from walk_below_start [OF this] w show False by blast
qed

theorem nonpositive_target_not_found_witness:
  "drop 1 (splitHunks specHunk) =
     [js '' -1,3 +1,4 @@\<newline> ctxA\<newline>+added1\<newline> ctxB\<newline>-removed1\<newline> ctxC''] \<and>
   headerMatch (js '' -1,3 +1,4 @@\<newline> ctxA\<newline>+added1\<newline> ctxB\<newline>-removed1\<newline> ctxC'') =
     Some (js ''1'', js ''1'') \<and>
   parseInt (js ''1'') = 1 \<and> findLineInDiff specHunk 0 = None \<and> findLineInDiff specHunk (- 3) = None"
proof -
  have d: "drop 1 (splitHunks specHunk) =
     [js '' -1,3 +1,4 @@\<newline> ctxA\<newline>+added1\<newline> ctxB\<newline>-removed1\<newline> ctxC'']"
    by code_simp
  have m: "headerMatch (js '' -1,3 +1,4 @@\<newline> ctxA\<newline>+added1\<newline> ctxB\<newline>-removed1\<newline> ctxC'') = Some (js ''1'', js ''1'')"
    by code_simp
  have p: "parseInt (js ''1'') = 1" by code_simp
  have h: "\<forall>h \<in> set (drop 1 (splitHunks specHunk)). \<forall>g1 g2.
       headerMatch h = Some (g1, g2) \<longrightarrow> 1 \<le> parseInt g1 \<and> 1 \<le> parseInt g2"
    unfolding d using m p by simp
  have z: "(0::int) \<le> 0" and z3: "(- 3::int) \<le> 0" by simp_all
  from nonpositive_target_not_found [OF h z] nonpositive_target_not_found [OF h z3] d m p
  show ?thesis by simp
qed

text \<open>
  C5. The locator is defined on every string and every integer target: each operation of
  the source is defined on all strings, both loops run over finite arrays, and the model
  has no error value because the source has no statement that throws. On the empty string
  the result is not-found; on a text none of whose hunks has a header match the result is
  not-found; and in every case the result is either not-found or a position whose new line
  is the target.
\<close>

theorem findLineInDiff_total:
  "findLineInDiff [] target = None \<and>
   ((\<forall>h \<in> set (drop 1 (splitHunks text)). headerMatch h = None) \<longrightarrow>
      findLineInDiff text target = None) \<and>
   (findLineInDiff text target = None \<or>
      (\<exists>pos. findLineInDiff text target = Some pos \<and> newLine pos = target))"
proof (intro conjI impI)
  show "findLineInDiff [] target = None" by (simp add: findLineInDiff_def)
next
  assume a: "\<forall>h \<in> set (drop 1 (splitHunks text)). headerMatch h = None"
  show "findLineInDiff text target = None"
  proof (rule ccontr)
    assume "findLineInDiff text target \<noteq> None"
    then obtain pos where "scanHunks (drop 1 (splitHunks text)) target = Some pos"
      by (auto simp: findLineInDiff_scanHunks)
    from scanHunks_Some_decomp [OF this] obtain hs1 h hs2 where
      d: "drop 1 (splitHunks text) = hs1 @ h # hs2" "scanHunk h target = Some (Found pos)" by blast
    from d(1) have "h \<in> set (drop 1 (splitHunks text))" by simp
    with a have "headerMatch h = None" by blast
    with d(2) show False by (simp add: scanHunk_def)
  qed
next
  show "findLineInDiff text target = None \<or>
      (\<exists>pos. findLineInDiff text target = Some pos \<and> newLine pos = target)"
  proof (cases "findLineInDiff text target")
    case None
    then show ?thesis by simp
  next
    case (Some pos)
    then have "scanHunks (drop 1 (splitHunks text)) target = Some pos"
      by (simp add: findLineInDiff_scanHunks)
    from scanHunks_Some_decomp [OF this] obtain h where "scanHunk h target = Some (Found pos)" by blast
    then obtain g1 g2 where
      w: "walk (drop 1 (splitLines h)) (parseInt g1) (parseInt g2) target = Found pos"
      by (auto simp: scanHunk_def split: option.splits)
    from walk_Found_decomp [OF w] have "newLine pos = target" by auto
    with Some show ?thesis by simp
  qed
qed

theorem findLineInDiff_total_witness:
  "drop 1 (splitHunks garbledDiff) = [js '' -1,3 1,4 @@\<newline> ctxA\<newline>+added1\<newline>''] \<and>
   headerMatch (js '' -1,3 1,4 @@\<newline> ctxA\<newline>+added1\<newline>'') = None \<and>
   findLineInDiff garbledDiff 1 = None \<and> findLineInDiff [] 1 = None"
proof -
  have d: "drop 1 (splitHunks garbledDiff) = [js '' -1,3 1,4 @@\<newline> ctxA\<newline>+added1\<newline>'']"
    by code_simp
  have m: "headerMatch (js '' -1,3 1,4 @@\<newline> ctxA\<newline>+added1\<newline>'') = None"
    by code_simp
  have h: "\<forall>h \<in> set (drop 1 (splitHunks garbledDiff)). headerMatch h = None"
    unfolding d using m by simp
  from findLineInDiff_total [of 1 garbledDiff] h d m show ?thesis by simp
qed

text \<open>
  C3, evaluated on a text whose only header line is garbled (the plus sign is missing)
  while the first line of its body contains the pattern. The header line alone has no
  match, but the match over the whole segment finds the pattern in the body, so the hunk
  is not skipped: its counters are read from the body line and target 7 gets a position.
\<close>

theorem garbled_header_not_skipped:
  "drop 1 (splitHunks bodyHeaderDiff) = [js '' -1,3 1,4 @@\<newline> -5 +7 @@\<newline>+added1\<newline>''] \<and>
   headerMatch (js '' -1,3 1,4 @@'') = None \<and>
   headerMatch (js '' -1,3 1,4 @@\<newline> -5 +7 @@\<newline>+added1\<newline>'') = Some (js ''5'', js ''7'') \<and>
   findLineInDiff bodyHeaderDiff 7 = Some \<lparr>oldLine = Some 5, newLine = 7\<rparr>"
  by code_simp

text \<open>
  C9. The text is split at every line that begins with \<^verbatim>\<open>@@\<close>. The header pattern is
  searched in the whole segment: the match is the first position of the segment, on
  whatever line, where a text of the form \<^verbatim>\<open> -N[,M] +C[,D] @@\<close> starts, and the counters are
  its \<open>N\<close> and \<open>C\<close>. The walk runs over the lines of the segment from the second one,
  wherever the pattern was found. The locator is the function that these words describe.
\<close>

theorem header_searched_in_whole_segment:
  "findLineInDiff text target = findLineInDiff_words text target \<and>
   splitHunks text = groupHunks (textLines text) \<and>
   (headerMatch seg = Some (n, c) \<longleftrightarrow>
      (\<exists>pre w m d rest. seg = pre @ w @ rest \<and> isHeaderText w n m c d \<and>
         (\<forall>pre' suf'. seg = pre' @ suf' \<and> length pre' < length pre \<longrightarrow> headerHere suf' = None))) \<and>
   scanHunk seg target =
     (case headerMatch seg of
        None \<Rightarrow> None
      | Some (n, c) \<Rightarrow> Some (walk (drop 1 (splitLines seg)) (parseInt n) (parseInt c) target))"
proof (intro conjI)
  show "findLineInDiff text target = findLineInDiff_words text target"
    by (rule findLineInDiff_words_eq)
  show "splitHunks text = groupHunks (textLines text)"
    by (rule splitHunks_groupHunks)
  show "scanHunk seg target =
     (case headerMatch seg of
        None \<Rightarrow> None
      | Some (n, c) \<Rightarrow> Some (walk (drop 1 (splitLines seg)) (parseInt n) (parseInt c) target))"
    by (simp add: scanHunk_def)
  show "headerMatch seg = Some (n, c) \<longleftrightarrow>
      (\<exists>pre w m d rest. seg = pre @ w @ rest \<and> isHeaderText w n m c d \<and>
         (\<forall>pre' suf'. seg = pre' @ suf' \<and> length pre' < length pre \<longrightarrow> headerHere suf' = None))"
    unfolding headerMatch_firstHeader firstHeader_iff headerHere_iff by blast
qed

theorem header_searched_in_whole_segment_witness:
  "headerMatch lateHeaderSegment = Some (js ''5'', js ''7'') \<and>
   splitLines lateHeaderSegment = [js '' bogus'', js '' ctx'', js '' -5,2 +7,2 @@'', []] \<and>
   scanHunk lateHeaderSegment 7 = Some (Found \<lparr>oldLine = Some 5, newLine = 7\<rparr>) \<and>
   (\<exists>pre w m d rest. lateHeaderSegment = pre @ w @ rest \<and> isHeaderText w (js ''5'') m (js ''7'') d)"
proof -
  have h: "headerMatch lateHeaderSegment = Some (js ''5'', js ''7'')" by code_simp
  have l: "splitLines lateHeaderSegment = [js '' bogus'', js '' ctx'', js '' -5,2 +7,2 @@'', []]"
    by code_simp
  have s: "scanHunk lateHeaderSegment 7 = Some (Found \<lparr>oldLine = Some 5, newLine = 7\<rparr>)"
    by code_simp
  from header_searched_in_whole_segment [of "[]" 7 lateHeaderSegment "js ''5''" "js ''7''"] h
  have "\<exists>pre w m d rest. lateHeaderSegment = pre @ w @ rest \<and> isHeaderText w (js ''5'') m (js ''7'') d"
    by blast
  with h l s show ?thesis by blast
qed

section \<open>Properties of the comment dispatch\<close>

subsection \<open>The lookup of the changed file\<close>

lemma find_first_decomp:
  "find P xs = Some x \<longleftrightarrow> (\<exists>pre suf. xs = pre @ x # suf \<and> P x \<and> (\<forall>y \<in> set pre. \<not> P y))"
proof (induction xs)
  case Nil
  then show ?case by simp
next
  case (Cons a xs)
  show ?case
  proof (cases "P a")
    case True
    have "(\<exists>pre suf. a # xs = pre @ x # suf \<and> P x \<and> (\<forall>y \<in> set pre. \<not> P y)) \<longleftrightarrow> a = x"
    proof
      assume "\<exists>pre suf. a # xs = pre @ x # suf \<and> P x \<and> (\<forall>y \<in> set pre. \<not> P y)"
      then obtain pre suf where d: "a # xs = pre @ x # suf" "\<forall>y \<in> set pre. \<not> P y" by blast
      show "a = x"
      proof (cases pre)
        case Nil
        with d(1) show ?thesis by simp
      next
        case (Cons b pre')
        with d(1) have "a = b" by simp
        with Cons d(2) True show ?thesis by simp
      qed
    next
      assume "a = x"
      with True have "a # xs = [] @ x # xs \<and> P x \<and> (\<forall>y \<in> set []. \<not> P y)" by simp
      then show "\<exists>pre suf. a # xs = pre @ x # suf \<and> P x \<and> (\<forall>y \<in> set pre. \<not> P y)" by blast
    qed
    with True show ?thesis by simp
  next
    case False
    have "(\<exists>pre suf. a # xs = pre @ x # suf \<and> P x \<and> (\<forall>y \<in> set pre. \<not> P y)) \<longleftrightarrow>
          (\<exists>pre suf. xs = pre @ x # suf \<and> P x \<and> (\<forall>y \<in> set pre. \<not> P y))"
    proof
      assume "\<exists>pre suf. a # xs = pre @ x # suf \<and> P x \<and> (\<forall>y \<in> set pre. \<not> P y)"
      then obtain pre suf where d: "a # xs = pre @ x # suf" "P x" "\<forall>y \<in> set pre. \<not> P y" by blast
      show "\<exists>pre suf. xs = pre @ x # suf \<and> P x \<and> (\<forall>y \<in> set pre. \<not> P y)"
      proof (cases pre)
        case Nil
        with d(1,2) False show ?thesis by simp
      next
        case (Cons b pre')
        with d have "xs = pre' @ x # suf \<and> P x \<and> (\<forall>y \<in> set pre'. \<not> P y)" by simp
        then show ?thesis by blast
      qed
    next
      assume "\<exists>pre suf. xs = pre @ x # suf \<and> P x \<and> (\<forall>y \<in> set pre. \<not> P y)"
      then obtain pre suf where d: "xs = pre @ x # suf" "P x" "\<forall>y \<in> set pre. \<not> P y" by blast
      with False have "a # xs = (a # pre) @ x # suf \<and> P x \<and> (\<forall>y \<in> set (a # pre). \<not> P y)" by simp
      then show "\<exists>pre suf. a # xs = pre @ x # suf \<and> P x \<and> (\<forall>y \<in> set pre. \<not> P y)" by blast
    qed
    with False Cons.IH show ?thesis by simp
  qed
qed

text \<open>
  The lookup of the source and the new-path-first lookup agree when no entry that matches
  only by its old path comes before an entry that matches by its new path.
\<close>

lemma findChange_agrees:
  "(\<forall>pre c suf. changes = pre @ c # suf \<and> new_path c = f \<longrightarrow>
      (\<forall>x \<in> set pre. old_path x = f \<longrightarrow> new_path x = f)) \<Longrightarrow>
   findChange changes f = findChange_spec changes f"
proof (induction changes)
  case Nil
  then show ?case by (simp add: findChange_def findChange_spec_def)
next
  case (Cons a cs)
  have tl: "\<forall>pre c suf. cs = pre @ c # suf \<and> new_path c = f \<longrightarrow>
      (\<forall>x \<in> set pre. old_path x = f \<longrightarrow> new_path x = f)"
  proof (intro allI impI)
    fix pre c suf assume "cs = pre @ c # suf \<and> new_path c = f"
    then have "a # cs = (a # pre) @ c # suf \<and> new_path c = f" by simp
    with Cons.prems have "\<forall>x \<in> set (a # pre). old_path x = f \<longrightarrow> new_path x = f" by blast
    then show "\<forall>x \<in> set pre. old_path x = f \<longrightarrow> new_path x = f" by simp
  qed
  note ih = Cons.IH [OF tl]
  show ?case
  proof (cases "new_path a = f")
    case True
    then show ?thesis by (simp add: findChange_def findChange_spec_def)
  next
    case nf: False
    show ?thesis
    proof (cases "old_path a = f")
      case False
      with nf ih show ?thesis
        by (simp add: findChange_def findChange_spec_def split: option.splits)
    next
      case True
      have none: "find (\<lambda>c. new_path c = f) cs = None"
      proof (rule ccontr)
        assume "find (\<lambda>c. new_path c = f) cs \<noteq> None"
        then obtain c where "find (\<lambda>c. new_path c = f) cs = Some c" by blast
        then obtain pre suf where d: "cs = pre @ c # suf" "new_path c = f"
          using find_first_decomp [of "\<lambda>c. new_path c = f" cs c] by blast
        then have "a # cs = (a # pre) @ c # suf \<and> new_path c = f" by simp
        with Cons.prems have "\<forall>x \<in> set (a # pre). old_path x = f \<longrightarrow> new_path x = f" by blast
        with True nf show False by simp
      qed
      with True nf show ?thesis by (simp add: findChange_def findChange_spec_def)
    qed
  qed
qed

text \<open>
  The position of a comment exists exactly when the lookup finds an entry, the entry has a
  diff and the locator finds the line in that diff; it is built from the result of the
  locator and from the paths of that entry.
\<close>

lemma positionFor_Some_iff:
  "positionFor refs changes comment = Some pd \<longleftrightarrow>
   (\<exists>fc d lineInfo. findChange changes (comment_file comment) = Some fc \<and> diff fc = Some d \<and>
      findLineInDiff d (comment_line comment) = Some lineInfo \<and>
      pd = \<lparr>position_base_sha = base_sha refs, position_head_sha = head_sha refs,
            position_start_sha = start_sha refs, position_new_path = new_path fc,
            position_old_path = old_path fc, position_type = js ''text'',
            new_line = newLine lineInfo, old_line = oldLine lineInfo\<rparr>)"
proof
  assume "positionFor refs changes comment = Some pd"
  then show "\<exists>fc d lineInfo. findChange changes (comment_file comment) = Some fc \<and> diff fc = Some d \<and>
      findLineInDiff d (comment_line comment) = Some lineInfo \<and>
      pd = \<lparr>position_base_sha = base_sha refs, position_head_sha = head_sha refs,
            position_start_sha = start_sha refs, position_new_path = new_path fc,
            position_old_path = old_path fc, position_type = js ''text'',
            new_line = newLine lineInfo, old_line = oldLine lineInfo\<rparr>"
    by (auto simp: positionFor_def split: option.splits if_splits)
next
  assume "\<exists>fc d lineInfo. findChange changes (comment_file comment) = Some fc \<and> diff fc = Some d \<and>
      findLineInDiff d (comment_line comment) = Some lineInfo \<and>
      pd = \<lparr>position_base_sha = base_sha refs, position_head_sha = head_sha refs,
            position_start_sha = start_sha refs, position_new_path = new_path fc,
            position_old_path = old_path fc, position_type = js ''text'',
            new_line = newLine lineInfo, old_line = oldLine lineInfo\<rparr>"
  then obtain fc d lineInfo where
    f: "findChange changes (comment_file comment) = Some fc" "diff fc = Some d"
       "findLineInDiff d (comment_line comment) = Some lineInfo"
       "pd = \<lparr>position_base_sha = base_sha refs, position_head_sha = head_sha refs,
            position_start_sha = start_sha refs, position_new_path = new_path fc,
            position_old_path = old_path fc, position_type = js ''text'',
            new_line = newLine lineInfo, old_line = oldLine lineInfo\<rparr>"
    by blast
  from f(3) have "d \<noteq> []" by (auto simp: findLineInDiff_def)
  with f show "positionFor refs changes comment = Some pd"
    by (simp add: positionFor_def)
qed

subsection \<open>The loop over the comments\<close>

lemma doPost_sent:
  "doPost svc req st = (ok, st') \<Longrightarrow>
   sent st' = sent st @ [(req, ok)] \<and> console st' = console st \<and>
   successCount st' = successCount st \<and> fallbackCount st' = fallbackCount st \<and>
   ok = fst (axiosPost svc req (world st))"
  by (auto simp: doPost_def split: prod.splits)

lemma emit_fields:
  "sent (emit e st) = sent st" "console (emit e st) = console st @ [e]"
  "successCount (emit e st) = successCount st" "fallbackCount (emit e st) = fallbackCount st"
  by (simp_all add: emit_def)

lemma acceptedDiscussions_snoc:
  "acceptedDiscussions (tr @ [(r, ok)]) = acceptedDiscussions tr + (if isDiscussion r \<and> ok then 1 else 0)"
  by (simp add: acceptedDiscussions_def)

lemma acceptedNotes_snoc:
  "acceptedNotes (tr @ [(r, ok)]) = acceptedNotes tr + (if \<not> isDiscussion r \<and> ok then 1 else 0)"
  by (simp add: acceptedNotes_def)

lemma fallbackPath_sent:
  defines "noteOk svc link c st \<equiv> fst (axiosPost svc (Note (formatMessage c link True)) (world st))"
  shows "sent (fallbackPath svc link c st) =
          sent st @ [(Note (formatMessage c link True), noteOk svc link c st)] \<and>
        console (fallbackPath svc link c st) =
          console st @ [if noteOk svc link c st then LogFallback c else ErrorFallbackFailed c] \<and>
        successCount (fallbackPath svc link c st) = successCount st \<and>
        fallbackCount (fallbackPath svc link c st) = fallbackCount st + (if noteOk svc link c st then 1 else 0)"
proof (cases "doPost svc (Note (formatMessage c link True)) st")
  case (Pair ok st')
  from doPost_sent [OF Pair] Pair show ?thesis
    unfolding noteOk_def
    by (cases ok) (simp_all add: fallbackPath_def postFallbackNote_def emit_fields)
qed

lemma fallbackPath_inv:
  assumes "successCount st = acceptedDiscussions (sent st)"
    "fallbackCount st = acceptedNotes (sent st)"
    "successCount st + fallbackCount st \<le> n"
    "filter (\<lambda>x. isSummary (fst x)) (sent st) = []"
    "Fatal \<notin> set (console st)" "WarnSummaryFailed \<notin> set (console st)"
  shows "runInv (Suc n) (fallbackPath svc link c st)"
  unfolding runInv_def using assms fallbackPath_sent [of svc link c st]
  by (simp add: acceptedDiscussions_snoc acceptedNotes_snoc formatMessage_def)

lemma dispatchComment_inv:
  assumes "runInv n st"
  shows "runInv (Suc n) (dispatchComment svc web refs changes st c)"
proof (cases "positionFor refs changes c")
  case None
  then have s: "dispatchComment svc web refs changes st c =
      fallbackPath svc (fileLineUrl web refs c) c st"
    by (simp add: dispatchComment_def)
  show ?thesis unfolding s
    using assms by (intro fallbackPath_inv) (simp_all add: runInv_def)
next
  case (Some pd)
  let ?req = "Discussion (formatMessage c (fileLineUrl web refs c) False) pd"
  obtain ok st' where p: "doPost svc ?req st = (ok, st')" by (cases "doPost svc ?req st")
  note d = doPost_sent [OF p]
  show ?thesis
  proof (cases ok)
    case True
    with Some p have "dispatchComment svc web refs changes st c =
        (emit (LogPositional c) st')\<lparr>successCount := successCount st' + 1\<rparr>"
      by (simp add: dispatchComment_def)
    with assms d True show ?thesis
      by (simp add: runInv_def emit_fields acceptedDiscussions_snoc acceptedNotes_snoc)
  next
    case False
    with Some p have s: "dispatchComment svc web refs changes st c =
        fallbackPath svc (fileLineUrl web refs c) c (emit (WarnPositionalFailed c) st')"
      by (simp add: dispatchComment_def)
    show ?thesis unfolding s
      using assms d False
      by (intro fallbackPath_inv)
         (simp_all add: runInv_def emit_fields acceptedDiscussions_snoc acceptedNotes_snoc)
  qed
qed

lemma startRun_inv: "runInv 0 (startRun w)"
  by (simp add: runInv_def startRun_def acceptedDiscussions_def acceptedNotes_def)

lemma loop_inv:
  "runInv n st \<Longrightarrow> runInv (n + length cs) (foldl (dispatchComment svc web refs changes) st cs)"
proof (induction cs arbitrary: n st)
  case Nil
  then show ?case by simp
next
  case (Cons c cs)
  from dispatchComment_inv [OF Cons.prems]
  have "runInv (Suc n) (dispatchComment svc web refs changes st c)" .
  from Cons.IH [OF this] show ?case by simp
qed

text \<open>
  The loop ends normally when there is no comment, or when \<^verbatim>\<open>diff_refs\<close> is there and the
  changes are an array; otherwise the body of the first comment throws.
\<close>

lemma forComments_complete:
  "forComments svc web (Some refs) (Changes changes) st cs =
     Inr (foldl (dispatchComment svc web refs changes) st cs)"
  by (induction cs arbitrary: st) (simp_all add: syncComment_def)

lemma forComments_throws:
  "diffRefs = None \<or> changes = NotAnArray \<Longrightarrow>
   forComments svc web diffRefs changes st (c # cs) = Inl (TypeError, st)"
  by (auto simp: syncComment_def split: option.splits changesData.splits)

lemma postDiscussion_fetched:
  "getMr svc w = (Some mr, w1) \<Longrightarrow> getDiffs svc w1 = (Some (Changes changes), w2) \<Longrightarrow>
   diff_refs mr = Some refs \<Longrightarrow> web_url mr = Some web \<Longrightarrow>
   postDiscussion svc comments w =
     (let st = foldl (dispatchComment svc (mrWebUrl web) refs changes) (startRun w2) comments
      in postSummary svc (successCount st) (fallbackCount st) (length comments) st)"
  by (simp add: postDiscussion_def forComments_complete Let_def)

lemma postDiscussion_no_comment:
  "getMr svc w = (Some mr, w1) \<Longrightarrow> getDiffs svc w1 = (Some changes, w2) \<Longrightarrow>
   web_url mr = Some web \<Longrightarrow>
   postDiscussion svc [] w = postSummary svc 0 0 0 (startRun w2)"
  by (simp add: postDiscussion_def startRun_def)

lemma postDiscussion_thrown:
  "getMr svc w = (Some mr, w1) \<Longrightarrow> getDiffs svc w1 = (Some changes, w2) \<Longrightarrow>
   web_url mr = None \<or> (comments \<noteq> [] \<and> (diff_refs mr = None \<or> changes = NotAnArray)) \<Longrightarrow>
   postDiscussion svc comments w = emit Fatal (startRun w2)"
proof -
  assume f: "getMr svc w = (Some mr, w1)" "getDiffs svc w1 = (Some changes, w2)"
    and c: "web_url mr = None \<or> (comments \<noteq> [] \<and> (diff_refs mr = None \<or> changes = NotAnArray))"
  show ?thesis
  proof (cases "web_url mr")
    case None
    with f show ?thesis by (simp add: postDiscussion_def)
  next
    case (Some web)
    with c obtain x xs where cs: "comments = x # xs"
      and b: "diff_refs mr = None \<or> changes = NotAnArray"
      by (cases comments) auto
    from forComments_throws [OF b]
    have "forComments svc (mrWebUrl web) (diff_refs mr) changes (startRun w2) (x # xs) =
        Inl (TypeError, startRun w2)" .
    with f Some cs show ?thesis by (simp add: postDiscussion_def)
  qed
qed

lemma postSummary_sent:
  defines "sumOk svc s f t st \<equiv> fst (axiosPost svc (Note (Summary t s f)) (world st))"
  shows "sent (postSummary svc s f t st) = sent st @ [(Note (Summary t s f), sumOk svc s f t st)] \<and>
        console (postSummary svc s f t st) =
          console st @ (if sumOk svc s f t st then [] else [WarnSummaryFailed])"
proof (cases "doPost svc (Note (Summary t s f)) st")
  case (Pair ok st')
  from doPost_sent [OF Pair] Pair show ?thesis
    unfolding sumOk_def by (cases ok) (simp_all add: postSummary_def emit_fields)
qed

text \<open>The summary at the end of a loop that has ended normally.\<close>

lemma summary_after_loop:
  assumes "runInv (length comments) st"
    and "r = postSummary svc (successCount st) (fallbackCount st) (length comments) st"
  shows "\<exists>reqs ok.
      sent r = reqs @ [(Note (Summary (length comments) (acceptedDiscussions reqs) (acceptedNotes reqs)), ok)] \<and>
      filter (\<lambda>x. isSummary (fst x)) reqs = [] \<and>
      length (filter (\<lambda>x. isSummary (fst x)) (sent r)) = 1 \<and>
      acceptedDiscussions reqs + acceptedNotes reqs \<le> length comments \<and>
      Fatal \<notin> set (console r) \<and>
      (WarnSummaryFailed \<in> set (console r) \<longleftrightarrow> \<not> ok)"
proof -
  from assms(1) have inv: "successCount st = acceptedDiscussions (sent st)"
    "fallbackCount st = acceptedNotes (sent st)"
    "successCount st + fallbackCount st \<le> length comments"
    "filter (\<lambda>x. isSummary (fst x)) (sent st) = []"
    "Fatal \<notin> set (console st)" "WarnSummaryFailed \<notin> set (console st)"
    by (simp_all add: runInv_def)
  let ?ok = "fst (axiosPost svc (Note (Summary (length comments) (successCount st) (fallbackCount st))) (world st))"
  from postSummary_sent [of svc "successCount st" "fallbackCount st" "length comments" st]
  have s: "sent r = sent st @ [(Note (Summary (length comments) (successCount st) (fallbackCount st)), ?ok)]"
       "console r = console st @ (if ?ok then [] else [WarnSummaryFailed])"
    unfolding assms(2) by simp_all
  have "sent r =
        sent st @ [(Note (Summary (length comments) (acceptedDiscussions (sent st)) (acceptedNotes (sent st))), ?ok)] \<and>
      filter (\<lambda>x. isSummary (fst x)) (sent st) = [] \<and>
      length (filter (\<lambda>x. isSummary (fst x)) (sent r)) = 1 \<and>
      acceptedDiscussions (sent st) + acceptedNotes (sent st) \<le> length comments \<and>
      Fatal \<notin> set (console r) \<and>
      (WarnSummaryFailed \<in> set (console r) \<longleftrightarrow> \<not> ?ok)"
    unfolding s using inv by simp
  then show ?thesis by blast
qed

section \<open>The claims about the comment dispatch\<close>

text \<open>
  C6. When the positional post of a comment is rejected by the service, the run goes on:
  the body of the loop does not throw, the rejected discussion is followed at once by the
  fallback note of the same comment, the loop continues with the comments after it and
  ends with the summary, and no fatal error is logged. A positional post is made only
  after \<^verbatim>\<open>web_url\<close>, \<^verbatim>\<open>diff_refs\<close> and the array of the changes have been read, so the
  three are there; the hypotheses name them.
\<close>

theorem rejected_positional_falls_back:
  assumes "getMr svc w = (Some mr, w1)" and "getDiffs svc w1 = (Some (Changes changes), w2)"
    and "diff_refs mr = Some refs" and "web_url mr = Some web"
    and "comments = cs1 @ c # cs2"
    and "st = foldl (dispatchComment svc (mrWebUrl web) refs changes) (startRun w2) cs1"
    and "positionFor refs changes c = Some pd"
    and "fst (axiosPost svc
           (Discussion (formatMessage c (fileLineUrl (mrWebUrl web) refs c) False) pd) (world st)) = False"
  shows "\<exists>ok.
      syncComment svc (mrWebUrl web) (diff_refs mr) (Changes changes) st c =
        Inr (dispatchComment svc (mrWebUrl web) refs changes st c) \<and>
      sent (dispatchComment svc (mrWebUrl web) refs changes st c) =
        sent st @ [(Discussion (formatMessage c (fileLineUrl (mrWebUrl web) refs c) False) pd, False),
                   (Note (formatMessage c (fileLineUrl (mrWebUrl web) refs c) True), ok)] \<and>
      postDiscussion svc comments w =
        (let st' = foldl (dispatchComment svc (mrWebUrl web) refs changes)
                     (dispatchComment svc (mrWebUrl web) refs changes st c) cs2
         in postSummary svc (successCount st') (fallbackCount st') (length comments) st') \<and>
      Fatal \<notin> set (console (postDiscussion svc comments w))"
proof -
  let ?link = "fileLineUrl (mrWebUrl web) refs c"
  let ?req = "Discussion (formatMessage c ?link False) pd"
  let ?body = "dispatchComment svc (mrWebUrl web) refs changes"
  obtain ok0 st0 where p: "doPost svc ?req st = (ok0, st0)" by (cases "doPost svc ?req st")
  note d = doPost_sent [OF p]
  from d assms(8) have no: "ok0 = False" by simp
  with assms(7) p have s: "?body st c = fallbackPath svc ?link c (emit (WarnPositionalFailed c) st0)"
    by (simp add: dispatchComment_def)
  let ?ok = "fst (axiosPost svc (Note (formatMessage c ?link True))
      (world (emit (WarnPositionalFailed c) st0)))"
  from fallbackPath_sent [of svc ?link c "emit (WarnPositionalFailed c) st0"]
  have "sent (fallbackPath svc ?link c (emit (WarnPositionalFailed c) st0)) =
       sent (emit (WarnPositionalFailed c) st0) @ [(Note (formatMessage c ?link True), ?ok)]"
    by simp
  with d no have tr: "sent (?body st c) =
        sent st @ [(?req, False), (Note (formatMessage c ?link True), ?ok)]"
    unfolding s by (simp add: emit_fields)
  have nothrow: "syncComment svc (mrWebUrl web) (diff_refs mr) (Changes changes) st c = Inr (?body st c)"
    using assms(3) by (simp add: syncComment_def)
  have loop: "postDiscussion svc comments w =
        (let st' = foldl ?body (?body st c) cs2
         in postSummary svc (successCount st') (fallbackCount st') (length comments) st')"
    using postDiscussion_fetched [OF assms(1,2,3,4), of comments] assms(5,6) by simp
  let ?st = "foldl ?body (startRun w2) comments"
  have "runInv (0 + length comments) ?st" by (rule loop_inv [OF startRun_inv])
  then have nf: "Fatal \<notin> set (console ?st)" by (simp add: runInv_def)
  from postSummary_sent [of svc "successCount ?st" "fallbackCount ?st" "length comments" ?st]
  have "console (postSummary svc (successCount ?st) (fallbackCount ?st) (length comments) ?st) =
      console ?st @ (if fst (axiosPost svc (Note (Summary (length comments) (successCount ?st)
         (fallbackCount ?st))) (world ?st)) then [] else [WarnSummaryFailed])" by simp
  with nf have "Fatal \<notin> set (console (postDiscussion svc comments w))"
    using postDiscussion_fetched [OF assms(1,2,3,4), of comments] by (simp add: Let_def)
  with nothrow tr loop show ?thesis by blast
qed

theorem rejected_positional_falls_back_witness:
  "getMr rejectingService 0 = (Some exampleMr, 1) \<and>
   getDiffs rejectingService 1 = (Some (Changes [renamedEntry, addedEntry]), 2) \<and>
   diff_refs exampleMr = Some exampleRefs \<and> web_url exampleMr = Some exampleWeb \<and>
   positionFor exampleRefs [renamedEntry, addedEntry] exampleComment =
     Some \<lparr>position_base_sha = js ''b0'', position_head_sha = js ''h0'', position_start_sha = js ''s0'',
           position_new_path = js ''b.js'', position_old_path = js ''a.js'', position_type = js ''text'',
           new_line = 2, old_line = None\<rparr> \<and>
   (\<exists>ok.
      sent (dispatchComment rejectingService (mrWebUrl exampleWeb) exampleRefs
              [renamedEntry, addedEntry] (startRun 2) exampleComment) =
        [(Discussion (formatMessage exampleComment
             (fileLineUrl (mrWebUrl exampleWeb) exampleRefs exampleComment) False)
            \<lparr>position_base_sha = js ''b0'', position_head_sha = js ''h0'', position_start_sha = js ''s0'',
             position_new_path = js ''b.js'', position_old_path = js ''a.js'', position_type = js ''text'',
             new_line = 2, old_line = None\<rparr>, False),
         (Note (formatMessage exampleComment
             (fileLineUrl (mrWebUrl exampleWeb) exampleRefs exampleComment) True), ok)]) \<and>
   Fatal \<notin> set (console (postDiscussion rejectingService [exampleComment, exampleComment] 0))"
proof -
  let ?pd = "\<lparr>position_base_sha = js ''b0'', position_head_sha = js ''h0'', position_start_sha = js ''s0'',
           position_new_path = js ''b.js'', position_old_path = js ''a.js'', position_type = js ''text'',
           new_line = 2, old_line = None\<rparr>"
  let ?link = "fileLineUrl (mrWebUrl exampleWeb) exampleRefs exampleComment"
  have m: "getMr rejectingService 0 = (Some exampleMr, 1)"
    by (simp add: rejectingService_def)
  have d: "getDiffs rejectingService 1 = (Some (Changes [renamedEntry, addedEntry]), 2)"
    by (simp add: rejectingService_def)
  have r: "diff_refs exampleMr = Some exampleRefs" and u: "web_url exampleMr = Some exampleWeb"
    by (simp_all add: exampleMr_def)
  have c: "[exampleComment, exampleComment] = [] @ exampleComment # [exampleComment]" by simp
  have s: "startRun (2::nat) =
      foldl (dispatchComment rejectingService (mrWebUrl exampleWeb) exampleRefs [renamedEntry, addedEntry])
        (startRun 2) []"
    by simp
  have p: "positionFor exampleRefs [renamedEntry, addedEntry] exampleComment = Some ?pd"
    by code_simp
  have j: "fst (axiosPost rejectingService (Discussion (formatMessage exampleComment ?link False) ?pd)
      (world (startRun 2))) = False"
    by (simp add: rejectingService_def)
  from rejected_positional_falls_back [OF m d r u c s p j] obtain ok where
    a: "sent (dispatchComment rejectingService (mrWebUrl exampleWeb) exampleRefs
              [renamedEntry, addedEntry] (startRun 2) exampleComment) =
        sent (startRun (2::nat)) @
          [(Discussion (formatMessage exampleComment ?link False) ?pd, False),
           (Note (formatMessage exampleComment ?link True), ok)]"
    and b: "Fatal \<notin> set (console (postDiscussion rejectingService [exampleComment, exampleComment] 0))"
    by blast
  have e: "sent (startRun (2::nat)) = []" by (simp add: startRun_def)
  from a have "\<exists>ok. sent (dispatchComment rejectingService (mrWebUrl exampleWeb) exampleRefs
              [renamedEntry, addedEntry] (startRun 2) exampleComment) =
          [(Discussion (formatMessage exampleComment ?link False) ?pd, False),
           (Note (formatMessage exampleComment ?link True), ok)]"
    unfolding e by auto
  with m d r u p b show ?thesis by blast
qed

text \<open>
  C7, as the specification states it: the changed set is searched by new path first and
  by old path only then. The source searches once, in list order, for an entry whose new
  path or old path is the file of the comment. When the entry of a file renamed from
  \<^verbatim>\<open>a.js\<close> precedes the entry of a new \<^verbatim>\<open>a.js\<close>, a comment on \<^verbatim>\<open>a.js\<close> is matched with
  the renamed file, and its position carries the new path \<^verbatim>\<open>b.js\<close>.
\<close>

theorem findChange_new_path_first_counterexample:
  "findChange [renamedEntry, addedEntry] (js ''a.js'') = Some renamedEntry \<and>
   findChange_spec [renamedEntry, addedEntry] (js ''a.js'') = Some addedEntry \<and>
   renamedEntry \<noteq> addedEntry \<and>
   map_option position_new_path (positionFor exampleRefs [renamedEntry, addedEntry] exampleComment) =
     Some (js ''b.js'')"
  by code_simp

text \<open>
  C7, amended. The file of the comment is matched against the changed files in list order:
  the entry taken is the first one whose new path or old path is the file of the comment
  (so a renamed file is found by its old path). This is the new-path-first lookup whenever
  no entry that matches only by its old path comes before an entry that matches by its new
  path. The diff of the entry taken is the one handed to the locator: the comment has a
  position exactly when the lookup finds an entry, that entry has a diff and the locator
  finds the line of the comment in that diff, and the position is then the result of the
  locator together with the paths of that entry.
\<close>

theorem findChange_first_entry:
  "(findChange changes f = Some c \<longleftrightarrow>
      (\<exists>pre suf. changes = pre @ c # suf \<and> (new_path c = f \<or> old_path c = f) \<and>
         (\<forall>x \<in> set pre. new_path x \<noteq> f \<and> old_path x \<noteq> f))) \<and>
   ((\<forall>pre c suf. changes = pre @ c # suf \<and> new_path c = f \<longrightarrow>
        (\<forall>x \<in> set pre. old_path x = f \<longrightarrow> new_path x = f)) \<longrightarrow>
      findChange changes f = findChange_spec changes f) \<and>
   (positionFor refs changes comment = Some pd \<longleftrightarrow>
      (\<exists>fc d lineInfo. findChange changes (comment_file comment) = Some fc \<and> diff fc = Some d \<and>
         findLineInDiff d (comment_line comment) = Some lineInfo \<and>
         pd = \<lparr>position_base_sha = base_sha refs, position_head_sha = head_sha refs,
               position_start_sha = start_sha refs, position_new_path = new_path fc,
               position_old_path = old_path fc, position_type = js ''text'',
               new_line = newLine lineInfo, old_line = oldLine lineInfo\<rparr>))"
proof (intro conjI impI)
  show "findChange changes f = Some c \<longleftrightarrow>
      (\<exists>pre suf. changes = pre @ c # suf \<and> (new_path c = f \<or> old_path c = f) \<and>
         (\<forall>x \<in> set pre. new_path x \<noteq> f \<and> old_path x \<noteq> f))"
    unfolding findChange_def
    using find_first_decomp [of "\<lambda>c. new_path c = f \<or> old_path c = f" changes c] by simp
next
  assume "\<forall>pre c suf. changes = pre @ c # suf \<and> new_path c = f \<longrightarrow>
        (\<forall>x \<in> set pre. old_path x = f \<longrightarrow> new_path x = f)"
  then show "findChange changes f = findChange_spec changes f" by (rule findChange_agrees)
next
  show "positionFor refs changes comment = Some pd \<longleftrightarrow>
      (\<exists>fc d lineInfo. findChange changes (comment_file comment) = Some fc \<and> diff fc = Some d \<and>
         findLineInDiff d (comment_line comment) = Some lineInfo \<and>
         pd = \<lparr>position_base_sha = base_sha refs, position_head_sha = head_sha refs,
               position_start_sha = start_sha refs, position_new_path = new_path fc,
               position_old_path = old_path fc, position_type = js ''text'',
               new_line = newLine lineInfo, old_line = oldLine lineInfo\<rparr>)"
    by (rule positionFor_Some_iff)
qed

theorem findChange_first_entry_witness:
  "findChange [addedEntry, renamedEntry] (js ''a.js'') = Some addedEntry \<and>
   findChange_spec [addedEntry, renamedEntry] (js ''a.js'') = Some addedEntry \<and>
   findChange [renamedEntry] (js ''a.js'') = Some renamedEntry \<and>
   old_path renamedEntry = js ''a.js'' \<and> new_path renamedEntry = js ''b.js'' \<and>
   diff renamedEntry = Some (js ''@@ -1,2 +1,2 @@\<newline> keep\<newline>-old\<newline>+new\<newline>'') \<and>
   findLineInDiff (js ''@@ -1,2 +1,2 @@\<newline> keep\<newline>-old\<newline>+new\<newline>'') 2 =
     Some \<lparr>oldLine = None, newLine = 2\<rparr> \<and>
   positionFor exampleRefs [renamedEntry] exampleComment =
     Some \<lparr>position_base_sha = js ''b0'', position_head_sha = js ''h0'', position_start_sha = js ''s0'',
           position_new_path = js ''b.js'', position_old_path = js ''a.js'', position_type = js ''text'',
           new_line = 2, old_line = None\<rparr> \<and>
   (\<exists>fc d lineInfo.
      findChange [addedEntry, renamedEntry] (comment_file exampleComment) = Some fc \<and>
      diff fc = Some d \<and> findLineInDiff d (comment_line exampleComment) = Some lineInfo \<and>
      positionFor exampleRefs [addedEntry, renamedEntry] exampleComment =
        Some \<lparr>position_base_sha = js ''b0'', position_head_sha = js ''h0'', position_start_sha = js ''s0'',
              position_new_path = js ''a.js'', position_old_path = js ''a.js'', position_type = js ''text'',
              new_line = newLine lineInfo, old_line = oldLine lineInfo\<rparr>)"
proof -
  let ?a = "js ''a.js''"
  let ?d = "js ''@@ -1,2 +1,2 @@\<newline> keep\<newline>-old\<newline>+new\<newline>''"
  let ?pdR = "\<lparr>position_base_sha = js ''b0'', position_head_sha = js ''h0'', position_start_sha = js ''s0'',
           position_new_path = js ''b.js'', position_old_path = js ''a.js'', position_type = js ''text'',
           new_line = 2, old_line = None\<rparr>"
  let ?pdA = "\<lparr>position_base_sha = js ''b0'', position_head_sha = js ''h0'', position_start_sha = js ''s0'',
           position_new_path = js ''a.js'', position_old_path = js ''a.js'', position_type = js ''text'',
           new_line = 2, old_line = None\<rparr>"
  have n: "new_path addedEntry = ?a" "new_path renamedEntry \<noteq> ?a"
    by code_simp+
  have o: "old_path renamedEntry = ?a" "new_path renamedEntry = js ''b.js''"
    "diff renamedEntry = Some ?d" "comment_file exampleComment = ?a" "comment_line exampleComment = 2"
    by code_simp+
  have rf: "base_sha exampleRefs = js ''b0''" "head_sha exampleRefs = js ''h0''"
    "start_sha exampleRefs = js ''s0''"
    by (simp_all add: exampleRefs_def)
  have l: "findLineInDiff ?d 2 = Some \<lparr>oldLine = None, newLine = 2\<rparr>" by code_simp
  note tr = findChange_first_entry [of "[renamedEntry]" ?a renamedEntry exampleRefs exampleComment ?pdR]
  have "[renamedEntry] = [] @ renamedEntry # [] \<and> (new_path renamedEntry = ?a \<or> old_path renamedEntry = ?a) \<and>
      (\<forall>x \<in> set []. new_path x \<noteq> ?a \<and> old_path x \<noteq> ?a)"
    using o(1) by simp
  with tr have fr: "findChange [renamedEntry] ?a = Some renamedEntry" by blast
  have "findChange [renamedEntry] (comment_file exampleComment) = Some renamedEntry \<and>
      diff renamedEntry = Some ?d \<and>
      findLineInDiff ?d (comment_line exampleComment) = Some \<lparr>oldLine = None, newLine = 2\<rparr> \<and>
      ?pdR = \<lparr>position_base_sha = base_sha exampleRefs, position_head_sha = head_sha exampleRefs,
               position_start_sha = start_sha exampleRefs, position_new_path = new_path renamedEntry,
               position_old_path = old_path renamedEntry, position_type = js ''text'',
               new_line = newLine \<lparr>oldLine = None, newLine = 2\<rparr>,
               old_line = oldLine \<lparr>oldLine = None, newLine = 2\<rparr>\<rparr>"
    using fr o l rf by simp
  with tr have pr: "positionFor exampleRefs [renamedEntry] exampleComment = Some ?pdR" by blast
  have h: "\<forall>pre c suf. [addedEntry, renamedEntry] = pre @ c # suf \<and> new_path c = ?a \<longrightarrow>
        (\<forall>x \<in> set pre. old_path x = ?a \<longrightarrow> new_path x = ?a)"
  proof (intro allI impI)
    fix pre c suf
    assume a: "[addedEntry, renamedEntry] = pre @ c # suf \<and> new_path c = ?a"
    show "\<forall>x \<in> set pre. old_path x = ?a \<longrightarrow> new_path x = ?a"
    proof (cases pre)
      case Nil
      then show ?thesis by simp
    next
      case (Cons p pre')
      with a have "p = addedEntry" and r: "[renamedEntry] = pre' @ c # suf" by simp_all
      from r have "pre' = []" by (cases pre') simp_all
      with Cons \<open>p = addedEntry\<close> n(1) show ?thesis by simp
    qed
  qed
  have d: "[addedEntry, renamedEntry] = [] @ addedEntry # [renamedEntry]" by simp
  have e: "\<forall>x \<in> set []. new_path x \<noteq> ?a \<and> old_path x \<noteq> ?a" by simp
  have pa: "positionFor exampleRefs [addedEntry, renamedEntry] exampleComment = Some ?pdA"
    by code_simp
  note ta = findChange_first_entry [of "[addedEntry, renamedEntry]" ?a addedEntry exampleRefs
      exampleComment ?pdA]
  from ta d n(1) e have f: "findChange [addedEntry, renamedEntry] ?a = Some addedEntry"
    by blast
  from ta h have g: "findChange [addedEntry, renamedEntry] ?a = findChange_spec [addedEntry, renamedEntry] ?a"
    by blast
  from ta pa obtain fc dd li where
    x: "findChange [addedEntry, renamedEntry] (comment_file exampleComment) = Some fc"
       "diff fc = Some dd" "findLineInDiff dd (comment_line exampleComment) = Some li"
       "?pdA = \<lparr>position_base_sha = base_sha exampleRefs, position_head_sha = head_sha exampleRefs,
               position_start_sha = start_sha exampleRefs, position_new_path = new_path fc,
               position_old_path = old_path fc, position_type = js ''text'',
               new_line = newLine li, old_line = oldLine li\<rparr>"
    by blast
  from x(4) have y: "newLine li = 2" "oldLine li = None" by simp_all
  have "\<exists>fc d lineInfo.
      findChange [addedEntry, renamedEntry] (comment_file exampleComment) = Some fc \<and>
      diff fc = Some d \<and> findLineInDiff d (comment_line exampleComment) = Some lineInfo \<and>
      positionFor exampleRefs [addedEntry, renamedEntry] exampleComment =
        Some \<lparr>position_base_sha = js ''b0'', position_head_sha = js ''h0'', position_start_sha = js ''s0'',
              position_new_path = js ''a.js'', position_old_path = js ''a.js'', position_type = js ''text'',
              new_line = newLine lineInfo, old_line = oldLine lineInfo\<rparr>"
    using x(1,2,3) pa y by auto
  with f g fr o(1,2,3) l pr show ?thesis by simp
qed

text \<open>
  C10, as stated: in every run whose two fetches succeed one summary note is posted. The
  service leaves \<^verbatim>\<open>diff_refs\<close> empty on a merge request that has no diff yet. Then both
  fetches succeed, the body of the loop throws on the first comment when it reads
  \<^verbatim>\<open>diffRefs.head_sha\<close>, the outer handler logs the fatal error, and nothing is posted,
  although the service would accept every post.
\<close>

theorem summary_missing_counterexample:
  "getMr newMrService 0 = (Some \<lparr>diff_refs = None, web_url = Some exampleWeb\<rparr>, 1) \<and>
   getDiffs newMrService 1 = (Some (Changes [renamedEntry, addedEntry]), 2) \<and>
   sent (postDiscussion newMrService [exampleComment] 0) = [] \<and>
   console (postDiscussion newMrService [exampleComment] 0) = [Fatal]"
  by (simp add: newMrService_def postDiscussion_def syncComment_def startRun_def emit_def)

text \<open>
  C10, amended. Take a run whose two fetches succeed. When the merge request carries its
  \<^verbatim>\<open>web_url\<close> and, unless there is no comment, also its \<^verbatim>\<open>diff_refs\<close> while the data of the
  diffs are an array, the requests of the run end with one summary note and contain no
  other: it reports the number of comments, the number of accepted positional posts and
  the number of accepted fallback notes, the two counts add up to at most the number of
  comments, the fatal handler is not reached, and a summary that the service rejects
  leaves only a warning on the console. In every other run whose fetches succeed the
  \<^verbatim>\<open>TypeError\<close> is caught by the outer handler: the fatal error is logged and nothing is
  posted.
\<close>

theorem summary_posted_once:
  assumes "getMr svc w = (Some mr, w1)" and "getDiffs svc w1 = (Some changes, w2)"
  shows "(web_url mr \<noteq> None \<and> (comments = [] \<or> (diff_refs mr \<noteq> None \<and> changes \<noteq> NotAnArray)) \<longrightarrow>
      (\<exists>reqs ok.
        sent (postDiscussion svc comments w) =
          reqs @ [(Note (Summary (length comments) (acceptedDiscussions reqs) (acceptedNotes reqs)), ok)] \<and>
        filter (\<lambda>x. isSummary (fst x)) reqs = [] \<and>
        length (filter (\<lambda>x. isSummary (fst x)) (sent (postDiscussion svc comments w))) = 1 \<and>
        acceptedDiscussions reqs + acceptedNotes reqs \<le> length comments \<and>
        Fatal \<notin> set (console (postDiscussion svc comments w)) \<and>
        (WarnSummaryFailed \<in> set (console (postDiscussion svc comments w)) \<longleftrightarrow> \<not> ok))) \<and>
    (web_url mr = None \<or> (comments \<noteq> [] \<and> (diff_refs mr = None \<or> changes = NotAnArray)) \<longrightarrow>
      sent (postDiscussion svc comments w) = [] \<and>
      console (postDiscussion svc comments w) = [Fatal])"
proof (intro conjI impI)
  assume wf: "web_url mr \<noteq> None \<and> (comments = [] \<or> (diff_refs mr \<noteq> None \<and> changes \<noteq> NotAnArray))"
  then obtain web where web: "web_url mr = Some web" by auto
  have "\<exists>st. runInv (length comments) st \<and>
      postDiscussion svc comments w =
        postSummary svc (successCount st) (fallbackCount st) (length comments) st"
  proof (cases "comments = []")
    case True
    have "runInv (length comments) (startRun w2)" using True startRun_inv [of w2] by simp
    moreover have "postDiscussion svc comments w =
        postSummary svc (successCount (startRun w2)) (fallbackCount (startRun w2))
          (length comments) (startRun w2)"
      using postDiscussion_no_comment [OF assms web] True by (simp add: startRun_def)
    ultimately show ?thesis by blast
  next
    case False
    with wf obtain refs cs where r: "diff_refs mr = Some refs" and c: "changes = Changes cs"
      by (cases changes) auto
    let ?st = "foldl (dispatchComment svc (mrWebUrl web) refs cs) (startRun w2) comments"
    have "runInv (0 + length comments) ?st" by (rule loop_inv [OF startRun_inv])
    then have "runInv (length comments) ?st" by simp
    moreover have "postDiscussion svc comments w =
        postSummary svc (successCount ?st) (fallbackCount ?st) (length comments) ?st"
      using postDiscussion_fetched [OF assms(1) assms(2) [unfolded c] r web, of comments]
      by (simp add: Let_def)
    ultimately show ?thesis by blast
  qed
  then obtain st where "runInv (length comments) st"
    "postDiscussion svc comments w =
        postSummary svc (successCount st) (fallbackCount st) (length comments) st"
    by blast
  then show "\<exists>reqs ok.
        sent (postDiscussion svc comments w) =
          reqs @ [(Note (Summary (length comments) (acceptedDiscussions reqs) (acceptedNotes reqs)), ok)] \<and>
        filter (\<lambda>x. isSummary (fst x)) reqs = [] \<and>
        length (filter (\<lambda>x. isSummary (fst x)) (sent (postDiscussion svc comments w))) = 1 \<and>
        acceptedDiscussions reqs + acceptedNotes reqs \<le> length comments \<and>
        Fatal \<notin> set (console (postDiscussion svc comments w)) \<and>
        (WarnSummaryFailed \<in> set (console (postDiscussion svc comments w)) \<longleftrightarrow> \<not> ok)"
    by (rule summary_after_loop)
next
  assume "web_url mr = None \<or> (comments \<noteq> [] \<and> (diff_refs mr = None \<or> changes = NotAnArray))"
  from postDiscussion_thrown [OF assms this]
  show "sent (postDiscussion svc comments w) = []"
    by (simp add: emit_def startRun_def)
next
  assume "web_url mr = None \<or> (comments \<noteq> [] \<and> (diff_refs mr = None \<or> changes = NotAnArray))"
  from postDiscussion_thrown [OF assms this]
  show "console (postDiscussion svc comments w) = [Fatal]"
    by (simp add: emit_def startRun_def)
qed

theorem summary_posted_once_witness:
  "getMr rejectingService 0 = (Some exampleMr, 1) \<and>
   getDiffs rejectingService 1 = (Some (Changes [renamedEntry, addedEntry]), 2) \<and>
   web_url exampleMr = Some exampleWeb \<and> diff_refs exampleMr = Some exampleRefs \<and>
   (\<exists>reqs ok.
      sent (postDiscussion rejectingService [exampleComment, exampleComment] 0) =
        reqs @ [(Note (Summary 2 (acceptedDiscussions reqs) (acceptedNotes reqs)), ok)] \<and>
      filter (\<lambda>x. isSummary (fst x)) reqs = [] \<and>
      length (filter (\<lambda>x. isSummary (fst x))
        (sent (postDiscussion rejectingService [exampleComment, exampleComment] 0))) = 1 \<and>
      acceptedDiscussions reqs + acceptedNotes reqs \<le> 2) \<and>
   getMr newMrService 0 = (Some \<lparr>diff_refs = None, web_url = Some exampleWeb\<rparr>, 1) \<and>
   getDiffs newMrService 1 = (Some (Changes [renamedEntry, addedEntry]), 2) \<and>
   (\<exists>ok. sent (postDiscussion newMrService [] 0) = [(Note (Summary 0 0 0), ok)]) \<and>
   sent (postDiscussion newMrService [exampleComment] 0) = [] \<and>
   console (postDiscussion newMrService [exampleComment] 0) = [Fatal]"
proof -
  have m: "getMr rejectingService 0 = (Some exampleMr, 1)"
    by (simp add: rejectingService_def)
  have d: "getDiffs rejectingService 1 = (Some (Changes [renamedEntry, addedEntry]), 2)"
    by (simp add: rejectingService_def)
  have r: "diff_refs exampleMr = Some exampleRefs" and u: "web_url exampleMr = Some exampleWeb"
    by (simp_all add: exampleMr_def)
  have wf: "web_url exampleMr \<noteq> None \<and> ([exampleComment, exampleComment] = [] \<or>
      (diff_refs exampleMr \<noteq> None \<and> Changes [renamedEntry, addedEntry] \<noteq> NotAnArray))"
    using r u by simp
  from summary_posted_once [OF m d, of "[exampleComment, exampleComment]"] wf
  have a: "\<exists>reqs ok.
      sent (postDiscussion rejectingService [exampleComment, exampleComment] 0) =
        reqs @ [(Note (Summary 2 (acceptedDiscussions reqs) (acceptedNotes reqs)), ok)] \<and>
      filter (\<lambda>x. isSummary (fst x)) reqs = [] \<and>
      length (filter (\<lambda>x. isSummary (fst x))
        (sent (postDiscussion rejectingService [exampleComment, exampleComment] 0))) = 1 \<and>
      acceptedDiscussions reqs + acceptedNotes reqs \<le> 2"
    by auto
  have m': "getMr newMrService 0 = (Some \<lparr>diff_refs = None, web_url = Some exampleWeb\<rparr>, 1)"
    by (simp add: newMrService_def)
  have d': "getDiffs newMrService 1 = (Some (Changes [renamedEntry, addedEntry]), 2)"
    by (simp add: newMrService_def)
  from summary_posted_once [OF m' d', of "[]"] obtain reqs ok where
    e: "sent (postDiscussion newMrService [] 0) =
          reqs @ [(Note (Summary (length ([]::reviewComment list)) (acceptedDiscussions reqs) (acceptedNotes reqs)), ok)]"
       "acceptedDiscussions reqs + acceptedNotes reqs \<le> length ([]::reviewComment list)"
       "filter (\<lambda>x. isSummary (fst x)) reqs = []"
    by auto
  have "sent (postDiscussion newMrService [] 0) = [(Note (Summary 0 0 0), fst (axiosPost newMrService (Note (Summary 0 0 0)) (2::nat)))]"
    using postDiscussion_no_comment [OF m' d', of exampleWeb] postSummary_sent [of newMrService 0 0 0 "startRun (2::nat)"]
    by (simp add: startRun_def)
  with e have b: "\<exists>ok. sent (postDiscussion newMrService [] 0) = [(Note (Summary 0 0 0), ok)]"
    by blast
  from summary_posted_once [OF m' d', of "[exampleComment]"]
  have c: "sent (postDiscussion newMrService [exampleComment] 0) = [] \<and>
      console (postDiscussion newMrService [exampleComment] 0) = [Fatal]"
    by simp
  from m d u r a m' d' b c show ?thesis by blast
qed

end
